theory Spec2Isabelle
  imports Main "HOL-Library.Monad_Syntax"
begin

section \<open>Python strings and the character database\<close>

text \<open>
  A Python \<open>str\<close> is a sequence of Unicode code points, so a string is a list of
  code points (natural numbers) and its length counts code points.  \<open>py_str\<close> reads
  an ASCII literal.

  The parser asks the character database about case, digits, letters and white space
  (\<open>str.isupper\<close>, \<open>str.islower\<close>, \<open>str.isdigit\<close>, \<open>str.isalpha\<close>,
  \<open>str.upper\<close>, \<open>str.lower\<close>, \<open>str.strip\<close>, and \<open>\d\<close> in a pattern).
  Below 128 the answers are those of ASCII and are written out.  From 128 on they
  are the tables of the Python runtime, which are no part of the repository: they
  are the parameter \<open>U\<close> of every function that depends on them, and every theorem
  holds for every \<open>U\<close> unless it says otherwise.
\<close>

type_synonym pystr = "nat list"

definition py_str :: "string \<Rightarrow> pystr" where
  "py_str cs = map of_char cs"

record unicode_db =
  uc_isupper :: "nat \<Rightarrow> bool"
  uc_islower :: "nat \<Rightarrow> bool"
  uc_istitle :: "nat \<Rightarrow> bool"
  uc_isdecimal :: "nat \<Rightarrow> bool"
  uc_isdigit :: "nat \<Rightarrow> bool"
  uc_isalpha :: "nat \<Rightarrow> bool"
  uc_isspace :: "nat \<Rightarrow> bool"
  uc_upper :: "nat \<Rightarrow> pystr"
  uc_lower :: "pystr \<Rightarrow> pystr"

text \<open>A database that knows nothing beyond ASCII; it serves to run the functions on
  ASCII inputs, where the tables are never consulted.\<close>

definition ascii_db :: unicode_db where
  "ascii_db = \<lparr> uc_isupper = (\<lambda>c. False), uc_islower = (\<lambda>c. False),
     uc_istitle = (\<lambda>c. False), uc_isdecimal = (\<lambda>c. False), uc_isdigit = (\<lambda>c. False),
     uc_isalpha = (\<lambda>c. False), uc_isspace = (\<lambda>c. False),
     uc_upper = (\<lambda>c. [c]), uc_lower = (\<lambda>s. s) \<rparr>"

text \<open>The character classes \<open>[A-Z]\<close>, \<open>[a-z]\<close> and \<open>[0-9]\<close>.\<close>

definition is_AZ :: "nat \<Rightarrow> bool" where
  "is_AZ c = (65 \<le> c \<and> c \<le> 90)"

definition is_az :: "nat \<Rightarrow> bool" where
  "is_az c = (97 \<le> c \<and> c \<le> 122)"

definition is_09 :: "nat \<Rightarrow> bool" where
  "is_09 c = (48 \<le> c \<and> c \<le> 57)"

definition ch_isupper :: "unicode_db \<Rightarrow> nat \<Rightarrow> bool" where
  "ch_isupper U c = (if c < 128 then is_AZ c else uc_isupper U c)"

definition ch_islower :: "unicode_db \<Rightarrow> nat \<Rightarrow> bool" where
  "ch_islower U c = (if c < 128 then is_az c else uc_islower U c)"

definition ch_istitle :: "unicode_db \<Rightarrow> nat \<Rightarrow> bool" where
  "ch_istitle U c = (if c < 128 then False else uc_istitle U c)"

definition ch_isdigit :: "unicode_db \<Rightarrow> nat \<Rightarrow> bool" where
  "ch_isdigit U c = (if c < 128 then is_09 c else uc_isdigit U c)"

definition ch_isalpha :: "unicode_db \<Rightarrow> nat \<Rightarrow> bool" where
  "ch_isalpha U c = (if c < 128 then is_AZ c \<or> is_az c else uc_isalpha U c)"

text \<open>White space as \<open>str.strip()\<close> sees it: tab, line feed, vertical tab, form feed,
  carriage return, the four separators 28 to 31 and the space.\<close>

definition ch_isspace :: "unicode_db \<Rightarrow> nat \<Rightarrow> bool" where
  "ch_isspace U c =
     (if c < 128 then (9 \<le> c \<and> c \<le> 13) \<or> (28 \<le> c \<and> c \<le> 32) else uc_isspace U c)"

text \<open>\<open>\d\<close> in a pattern over \<open>str\<close>: a decimal digit.\<close>

definition re_d :: "unicode_db \<Rightarrow> nat \<Rightarrow> bool" where
  "re_d U c = (if c < 128 then is_09 c else uc_isdecimal U c)"

text \<open>\<open>s.isupper()\<close>: no character is lowercase or titlecase and one is uppercase; a
  string of one character is asked directly.  \<open>s.islower()\<close> likewise.\<close>

definition py_isupper :: "unicode_db \<Rightarrow> pystr \<Rightarrow> bool" where
  "py_isupper U s =
     (case s of
        [] \<Rightarrow> False
      | [c] \<Rightarrow> ch_isupper U c
      | _ \<Rightarrow> list_all (\<lambda>c. \<not> ch_islower U c \<and> \<not> ch_istitle U c) s \<and> list_ex (ch_isupper U) s)"

definition py_islower :: "unicode_db \<Rightarrow> pystr \<Rightarrow> bool" where
  "py_islower U s =
     (case s of
        [] \<Rightarrow> False
      | [c] \<Rightarrow> ch_islower U c
      | _ \<Rightarrow> list_all (\<lambda>c. \<not> ch_isupper U c \<and> \<not> ch_istitle U c) s \<and> list_ex (ch_islower U) s)"

definition py_isdigit :: "unicode_db \<Rightarrow> pystr \<Rightarrow> bool" where
  "py_isdigit U s = (s \<noteq> [] \<and> list_all (ch_isdigit U) s)"

text \<open>\<open>c.upper()\<close> for a string of one character (the result can be longer), and
  \<open>s.lower()\<close>, which is not character by character outside ASCII.\<close>

definition py_upper1 :: "unicode_db \<Rightarrow> nat \<Rightarrow> pystr" where
  "py_upper1 U c = (if c < 128 then [if is_az c then c - 32 else c] else uc_upper U c)"

definition py_lower :: "unicode_db \<Rightarrow> pystr \<Rightarrow> pystr" where
  "py_lower U s =
     (if list_all (\<lambda>c. c < 128) s then map (\<lambda>c. if is_AZ c then c + 32 else c) s
      else uc_lower U s)"

definition py_strip :: "unicode_db \<Rightarrow> pystr \<Rightarrow> pystr" where
  "py_strip U s = rev (dropWhile (ch_isspace U) (rev (dropWhile (ch_isspace U) s)))"

text \<open>\<open>s[a:b]\<close> for indices that are not negative.\<close>

definition py_slice :: "'a list \<Rightarrow> nat \<Rightarrow> nat \<Rightarrow> 'a list" where
  "py_slice s a b = take (b - a) (drop a s)"

text \<open>\<open>xs[i]\<close>: raises IndexError out of range; a negative index counts from the end.\<close>

definition py_index :: "'a list \<Rightarrow> int \<Rightarrow> 'a option" where
  "py_index xs i =
     (if 0 \<le> i \<and> i < int (length xs) then Some (xs ! nat i)
      else if i < 0 \<and> - int (length xs) \<le> i then Some (xs ! nat (int (length xs) + i))
      else None)"

definition py_startswith :: "pystr \<Rightarrow> pystr \<Rightarrow> bool" where
  "py_startswith s p = (take (length p) s = p)"

definition py_endswith :: "pystr \<Rightarrow> pystr \<Rightarrow> bool" where
  "py_endswith s p = (length p \<le> length s \<and> drop (length s - length p) s = p)"

text \<open>\<open>sub in s\<close>.\<close>

fun py_contains :: "pystr \<Rightarrow> pystr \<Rightarrow> bool" where
  "py_contains sub [] = (sub = [])"
| "py_contains sub (c # cs) = (py_startswith (c # cs) sub \<or> py_contains sub cs)"

text \<open>\<open>s.replace(old, new)\<close> for a non-empty \<open>old\<close>: every occurrence found scanning
  from the left, none overlapping an earlier one.\<close>

function py_replace :: "pystr \<Rightarrow> pystr \<Rightarrow> pystr \<Rightarrow> pystr" where
  "py_replace old new [] = []"
| "py_replace old new (c # cs) =
     (if old \<noteq> [] \<and> py_startswith (c # cs) old
      then new @ py_replace old new (drop (length old) (c # cs))
      else c # py_replace old new cs)"
  by pat_completeness auto
termination
  by (relation "measure (\<lambda>(old, new, s). length s)") auto

text \<open>\<open>s.split(sep)\<close> for a separator of one character: the pieces between the
  separators, empty ones included.\<close>

fun split_acc :: "nat \<Rightarrow> pystr \<Rightarrow> pystr \<Rightarrow> pystr list" where
  "split_acc sep cur [] = [cur]"
| "split_acc sep cur (c # cs) =
     (if c = sep then cur # split_acc sep [] cs else split_acc sep (cur @ [c]) cs)"

definition py_split :: "nat \<Rightarrow> pystr \<Rightarrow> pystr list" where
  "py_split sep s = split_acc sep [] s"

text \<open>\<open>s.split(sep, 1)\<close>: at most one split, at the first separator.\<close>

definition py_split1 :: "nat \<Rightarrow> pystr \<Rightarrow> pystr list" where
  "py_split1 sep s =
     (if sep \<in> set s then [takeWhile (\<lambda>c. c \<noteq> sep) s, tl (dropWhile (\<lambda>c. c \<noteq> sep) s)]
      else [s])"

text \<open>\<open>s.rfind(c)\<close>: the last index of the character, or -1.\<close>

fun rfind_from :: "nat \<Rightarrow> pystr \<Rightarrow> nat \<Rightarrow> int \<Rightarrow> int" where
  "rfind_from c [] i found = found"
| "rfind_from c (x # xs) i found = rfind_from c xs (Suc i) (if x = c then int i else found)"

definition py_rfind :: "nat \<Rightarrow> pystr \<Rightarrow> int" where
  "py_rfind c s = rfind_from c s 0 (- 1)"

text \<open>\<open>os.path.basename\<close> and the root of \<open>os.path.splitext\<close> on a POSIX system
  (the module's doctests expect a backslash to stay in the name, so POSIX it is):
  \<open>basename\<close> keeps what follows the last slash; \<open>splitext\<close> cuts at the last dot,
  when that dot comes after the last slash and some character between the two is
  not a dot.\<close>

definition basename :: "pystr \<Rightarrow> pystr" where
  "basename p = drop (nat (py_rfind 47 p + 1)) p"

definition splitext_root :: "pystr \<Rightarrow> pystr" where
  "splitext_root p =
     (let sepIndex = py_rfind 47 p; dotIndex = py_rfind 46 p
      in if dotIndex > sepIndex
            \<and> list_ex (\<lambda>c. c \<noteq> 46) (py_slice p (nat (sepIndex + 1)) (nat dotIndex))
         then take (nat dotIndex) p else p)"

section \<open>The token pattern\<close>

text \<open>
  \<open>_TOKEN_PATTERN\<close> is one alternation; at a position the alternatives are tried in
  order and the first that matches wins, with the match its own backtracking finds
  first.  Each alternative is a function of the input from the position on (and of
  the character before the position, for the lookbehind) that returns the length of
  its match.
\<close>

text \<open>\<open>[A-Z]+(?=[A-Z][a-z])\<close>: the run of capitals is taken whole, then given back
  one letter at a time until the lookahead holds.\<close>

fun backtrack_down :: "(nat \<Rightarrow> bool) \<Rightarrow> nat \<Rightarrow> nat option" where
  "backtrack_down ok 0 = None"
| "backtrack_down ok (Suc n) = (if ok (Suc n) then Some (Suc n) else backtrack_down ok n)"

definition acronym_lookahead :: "pystr \<Rightarrow> nat \<Rightarrow> bool" where
  "acronym_lookahead xs n = (n + 1 < length xs \<and> is_AZ (xs ! n) \<and> is_az (xs ! (n + 1)))"

definition ACRONYM_BEFORE_CAMEL :: "pystr \<Rightarrow> nat option" where
  "ACRONYM_BEFORE_CAMEL xs = backtrack_down (acronym_lookahead xs) (length (takeWhile is_AZ xs))"

text \<open>\<open>\d+\<close> and \<open>(?:\.\d+)*\<close>, both greedy: the length of the longest run of
  digits, and of the longest sequence of groups of a dot and digits.  A shorter run
  of digits is never an alternative worth trying: it is followed by a digit, where
  the pattern goes on with a dot or ends.\<close>

definition digits_len :: "unicode_db \<Rightarrow> pystr \<Rightarrow> nat" where
  "digits_len U xs = length (takeWhile (re_d U) xs)"

fun dot_groups_len :: "unicode_db \<Rightarrow> pystr \<Rightarrow> nat" where
  "dot_groups_len U [] = 0"
| "dot_groups_len U (c # cs) =
     (if c = 46 \<and> 0 < digits_len U cs
      then 1 + digits_len U cs + dot_groups_len U (drop (digits_len U cs) cs)
      else 0)"

text \<open>\<open>(?<![A-Z])[A-Z]\d+(?:\.\d+)*\<close>; \<open>prev\<close> is the character before the
  position, if there is one.\<close>

definition not_after_AZ :: "nat option \<Rightarrow> bool" where
  "not_after_AZ prev = (case prev of None \<Rightarrow> True | Some p \<Rightarrow> \<not> is_AZ p)"

definition SINGLE_CAP_NUMBER :: "unicode_db \<Rightarrow> nat option \<Rightarrow> pystr \<Rightarrow> nat option" where
  "SINGLE_CAP_NUMBER U prev xs =
     (case xs of
        [] \<Rightarrow> None
      | c # cs \<Rightarrow>
          if not_after_AZ prev \<and> is_AZ c \<and> 0 < digits_len U cs
          then Some (1 + digits_len U cs + dot_groups_len U (drop (digits_len U cs) cs))
          else None)"

text \<open>\<open>\d+(?:\.\d+)+\<close>.\<close>

definition DECIMAL_NUMBER :: "unicode_db \<Rightarrow> pystr \<Rightarrow> nat option" where
  "DECIMAL_NUMBER U xs =
     (let d = digits_len U xs; g = dot_groups_len U (drop d xs)
      in if 0 < d \<and> 0 < g then Some (d + g) else None)"

text \<open>\<open>[A-Z]?[a-z]+?(?=[A-Z]|(?<![A-Z])[A-Z]\d|\d|[&!*(){}\[\]?,;$\-%@']|$)\<close>.  The
  lookahead holds at the end of the input, before a line feed that ends the input
  (the \<open>$\<close> of Python), and before a capital, a digit or one of the listed
  characters.  The lowercase letters are lazy: one is taken, and one more each time
  the lookahead fails.  The optional capital is tried first, and left out when the
  rest fails with it.\<close>

definition lookahead_chars :: pystr where
  "lookahead_chars = py_str ''&!*(){}[]?,;$-%@'' @ [39]"

definition word_lookahead :: "unicode_db \<Rightarrow> nat option \<Rightarrow> pystr \<Rightarrow> bool" where
  "word_lookahead U prev xs =
     (case xs of
        [] \<Rightarrow> True
      | c # cs \<Rightarrow>
          is_AZ c
          \<or> (not_after_AZ prev \<and> is_AZ c \<and> (case cs of [] \<Rightarrow> False | d # ds \<Rightarrow> re_d U d))
          \<or> re_d U c
          \<or> c \<in> set lookahead_chars
          \<or> (c = 10 \<and> cs = []))"

fun lazy_lower :: "unicode_db \<Rightarrow> pystr \<Rightarrow> nat option" where
  "lazy_lower U [] = None"
| "lazy_lower U (c # cs) =
     (if is_az c
      then (if word_lookahead U (Some c) cs then Some 1 else map_option Suc (lazy_lower U cs))
      else None)"

definition CAPITALIZED_WORD :: "unicode_db \<Rightarrow> pystr \<Rightarrow> nat option" where
  "CAPITALIZED_WORD U xs =
     (case xs of
        [] \<Rightarrow> None
      | c # cs \<Rightarrow>
          if is_AZ c
          then (case lazy_lower U cs of Some n \<Rightarrow> Some (Suc n) | None \<Rightarrow> lazy_lower U xs)
          else lazy_lower U xs)"

text \<open>\<open>[A-Z]{2,}\<close>, \<open>[A-Z]\<close>, \<open>\d+\<close> and the characters that are tokens of their
  own.\<close>

definition ALL_CAPS_SEQUENCE :: "pystr \<Rightarrow> nat option" where
  "ALL_CAPS_SEQUENCE xs =
     (let m = length (takeWhile is_AZ xs) in if 2 \<le> m then Some m else None)"

definition SINGLE_UPPERCASE :: "pystr \<Rightarrow> nat option" where
  "SINGLE_UPPERCASE xs = (case xs of [] \<Rightarrow> None | c # cs \<Rightarrow> if is_AZ c then Some 1 else None)"

definition DIGITS :: "unicode_db \<Rightarrow> pystr \<Rightarrow> nat option" where
  "DIGITS U xs = (let d = digits_len U xs in if 0 < d then Some d else None)"

definition special_chars :: pystr where
  "special_chars = py_str ''&!*({[]}?,;$%@''"

definition SPECIAL_CHARACTER :: "pystr \<Rightarrow> nat option" where
  "SPECIAL_CHARACTER xs =
     (case xs of [] \<Rightarrow> None | c # cs \<Rightarrow> if c \<in> set special_chars then Some 1 else None)"

fun first_match :: "nat option list \<Rightarrow> nat option" where
  "first_match [] = None"
| "first_match (None # ms) = first_match ms"
| "first_match (Some n # ms) = Some n"

definition TOKEN_PATTERN :: "unicode_db \<Rightarrow> nat option \<Rightarrow> pystr \<Rightarrow> nat option" where
  "TOKEN_PATTERN U prev xs =
     first_match
       [ACRONYM_BEFORE_CAMEL xs, SINGLE_CAP_NUMBER U prev xs, DECIMAL_NUMBER U xs,
        CAPITALIZED_WORD U xs, ALL_CAPS_SEQUENCE xs, SINGLE_UPPERCASE xs, DIGITS U xs,
        SPECIAL_CHARACTER xs]"

text \<open>The pattern tried at position \<open>pos\<close> of \<open>s\<close>.\<close>

definition match_at :: "unicode_db \<Rightarrow> pystr \<Rightarrow> nat \<Rightarrow> nat option" where
  "match_at U s pos =
     TOKEN_PATTERN U (if pos = 0 then None else Some (s ! (pos - 1))) (drop pos s)"

subsection \<open>Every match is non-empty and inside the input\<close>

lemma backtrack_down_bounds: "backtrack_down ok m = Some n \<Longrightarrow> 0 < n \<and> n \<le> m"
  by (induction m) (auto split: if_splits)

lemma digits_len_le: "digits_len U xs \<le> length xs"
  by (simp add: digits_len_def length_takeWhile_le)

lemma dot_groups_len_le: "dot_groups_len U xs \<le> length xs"
proof (induction U xs rule: dot_groups_len.induct)
  case (1 U)
  show ?case by simp
next
  case (2 U c cs)
  show ?case
  proof (cases "c = 46 \<and> 0 < digits_len U cs")
    case True
    have "dot_groups_len U (drop (digits_len U cs) cs) \<le> length cs - digits_len U cs"
      using 2 True by simp
    moreover have "digits_len U cs \<le> length cs" by (rule digits_len_le)
    ultimately show ?thesis using True by simp
  next
    case False
    then show ?thesis by auto
  qed
qed

lemma digits_then_groups_le:
  "digits_len U xs + dot_groups_len U (drop (digits_len U xs) xs) \<le> length xs"
proof -
  have "dot_groups_len U (drop (digits_len U xs) xs) \<le> length xs - digits_len U xs"
    using dot_groups_len_le [of U "drop (digits_len U xs) xs"] by simp
  then show ?thesis using digits_len_le [of U xs] by simp
qed

lemma lazy_lower_bounds: "lazy_lower U xs = Some n \<Longrightarrow> 0 < n \<and> n \<le> length xs"
  by (induction xs arbitrary: n) (auto split: if_splits)

lemma ACRONYM_BEFORE_CAMEL_bounds:
  "ACRONYM_BEFORE_CAMEL xs = Some n \<Longrightarrow> 0 < n \<and> n \<le> length xs"
  using backtrack_down_bounds [of "acronym_lookahead xs" "length (takeWhile is_AZ xs)" n]
    length_takeWhile_le [of is_AZ xs]
  by (simp add: ACRONYM_BEFORE_CAMEL_def)

lemma SINGLE_CAP_NUMBER_bounds:
  "SINGLE_CAP_NUMBER U prev xs = Some n \<Longrightarrow> 0 < n \<and> n \<le> length xs"
  using digits_then_groups_le [of U "tl xs"]
  by (auto simp: SINGLE_CAP_NUMBER_def split: list.splits if_splits)

lemma DECIMAL_NUMBER_bounds:
  "DECIMAL_NUMBER U xs = Some n \<Longrightarrow> 0 < n \<and> n \<le> length xs"
  using digits_then_groups_le [of U xs]
  by (auto simp: DECIMAL_NUMBER_def Let_def split: if_splits)

lemma CAPITALIZED_WORD_bounds:
  "CAPITALIZED_WORD U xs = Some n \<Longrightarrow> 0 < n \<and> n \<le> length xs"
  by (auto simp: CAPITALIZED_WORD_def split: list.splits if_splits option.splits
      dest!: lazy_lower_bounds)

lemma ALL_CAPS_SEQUENCE_bounds:
  "ALL_CAPS_SEQUENCE xs = Some n \<Longrightarrow> 0 < n \<and> n \<le> length xs"
  using length_takeWhile_le [of is_AZ xs]
  by (auto simp: ALL_CAPS_SEQUENCE_def Let_def split: if_splits)

lemma SINGLE_UPPERCASE_bounds:
  "SINGLE_UPPERCASE xs = Some n \<Longrightarrow> 0 < n \<and> n \<le> length xs"
  by (auto simp: SINGLE_UPPERCASE_def split: list.splits if_splits)

lemma DIGITS_bounds: "DIGITS U xs = Some n \<Longrightarrow> 0 < n \<and> n \<le> length xs"
  using digits_len_le [of U xs]
  by (auto simp: DIGITS_def Let_def split: if_splits)

lemma SPECIAL_CHARACTER_bounds:
  "SPECIAL_CHARACTER xs = Some n \<Longrightarrow> 0 < n \<and> n \<le> length xs"
  by (auto simp: SPECIAL_CHARACTER_def split: list.splits if_splits)

lemma first_match_member: "first_match ms = Some n \<Longrightarrow> Some n \<in> set ms"
  by (induction ms rule: first_match.induct) auto

lemma TOKEN_PATTERN_bounds:
  assumes "TOKEN_PATTERN U prev xs = Some n"
  shows "0 < n \<and> n \<le> length xs"
proof -
  have "Some n \<in> set [ACRONYM_BEFORE_CAMEL xs, SINGLE_CAP_NUMBER U prev xs,
      DECIMAL_NUMBER U xs, CAPITALIZED_WORD U xs, ALL_CAPS_SEQUENCE xs,
      SINGLE_UPPERCASE xs, DIGITS U xs, SPECIAL_CHARACTER xs]"
    using assms unfolding TOKEN_PATTERN_def by (rule first_match_member)
  then consider "ACRONYM_BEFORE_CAMEL xs = Some n" | "SINGLE_CAP_NUMBER U prev xs = Some n"
    | "DECIMAL_NUMBER U xs = Some n" | "CAPITALIZED_WORD U xs = Some n"
    | "ALL_CAPS_SEQUENCE xs = Some n" | "SINGLE_UPPERCASE xs = Some n"
    | "DIGITS U xs = Some n" | "SPECIAL_CHARACTER xs = Some n"
    by auto
  then show ?thesis
    using ACRONYM_BEFORE_CAMEL_bounds SINGLE_CAP_NUMBER_bounds DECIMAL_NUMBER_bounds
      CAPITALIZED_WORD_bounds ALL_CAPS_SEQUENCE_bounds SINGLE_UPPERCASE_bounds
      DIGITS_bounds SPECIAL_CHARACTER_bounds
    by cases blast+
qed

lemma match_at_bounds:
  assumes "match_at U s pos = Some n"
  shows "0 < n \<and> pos + n \<le> length s"
  using TOKEN_PATTERN_bounds [OF assms [unfolded match_at_def]] by auto

section \<open>The tokenizer\<close>

text \<open>\<open>_TOKEN_PATTERN.finditer(value)\<close>: the matches from left to right, as pairs
  of start and end.  After a match the search goes on where the match ended; where
  nothing matches it moves one character on.\<close>

function finditer_from :: "unicode_db \<Rightarrow> pystr \<Rightarrow> nat \<Rightarrow> (nat \<times> nat) list" where
  "finditer_from U s pos =
     (if length s \<le> pos then []
      else case match_at U s pos of
             None \<Rightarrow> finditer_from U s (Suc pos)
           | Some n \<Rightarrow> (pos, pos + n) # finditer_from U s (pos + n))"
  by pat_completeness auto
termination
proof (relation "measure (\<lambda>(U, s, pos). length s - pos)")
  show "wf (measure (\<lambda>(U, s, pos). length s - pos))" by simp
next
  fix U :: unicode_db and s :: pystr and pos :: nat
  assume "\<not> length s \<le> pos" "match_at U s pos = None"
  then show "((U, s, Suc pos), (U, s, pos)) \<in> measure (\<lambda>(U, s, pos). length s - pos)"
    by simp
next
  fix U :: unicode_db and s :: pystr and pos n :: nat
  assume "\<not> length s \<le> pos" "match_at U s pos = Some n"
  then show "((U, s, pos + n), (U, s, pos)) \<in> measure (\<lambda>(U, s, pos). length s - pos)"
    using match_at_bounds [of U s pos n] by auto
qed

definition finditer :: "unicode_db \<Rightarrow> pystr \<Rightarrow> (nat \<times> nat) list" where
  "finditer U s = finditer_from U s 0"

text \<open>The body of the loop of \<open>tokenize_pascal_case\<close>, on the state
  \<open>(tokens, last_end)\<close>, and the function.\<close>

definition tokenize_step ::
  "pystr \<Rightarrow> nat \<times> nat \<Rightarrow> pystr list \<times> nat \<Rightarrow> pystr list \<times> nat" where
  "tokenize_step v m st =
     (case (m, st) of
        ((start, end'), (tokens, last_end)) \<Rightarrow>
          ((if start > last_end then tokens @ [py_slice v last_end start] else tokens)
             @ [py_slice v start end'],
           end'))"

definition tokenize_pascal_case :: "unicode_db \<Rightarrow> pystr \<Rightarrow> pystr list" where
  "tokenize_pascal_case U v =
     (if v = [] then []
      else case fold (tokenize_step v) (finditer U v) ([], 0) of
             (tokens, last_end) \<Rightarrow>
               if last_end < length v then tokens @ [drop last_end v] else tokens)"

section \<open>Normalizing the file name\<close>

text \<open>\<open>name.replace(":", "_").replace("\\", "_")\<close>.\<close>

definition sanitize_forbidden_characters :: "pystr \<Rightarrow> pystr" where
  "sanitize_forbidden_characters name = py_replace [92] [95] (py_replace [58] [95] name)"

definition normalize_basename :: "pystr \<Rightarrow> bool \<Rightarrow> pystr" where
  "normalize_basename input_name strip_extension =
     (let candidate = basename input_name;
          candidate = sanitize_forbidden_characters candidate;
          candidate =
            (if py_contains (py_str ''.CFF2.'') candidate
             then py_replace (py_str ''.CFF2.'') (py_str ''.'') candidate
             else if py_endswith candidate (py_str ''.CFF2'')
             then take (length candidate - 5) candidate
             else candidate)
      in if strip_extension then splitext_root candidate else candidate)"

section \<open>Formatting a token\<close>

text \<open>Where the source indexes a string or a list, or unpacks a pair, the model
  returns \<open>None\<close> for the exception Python would raise.\<close>

definition special_tokens :: "pystr list" where
  "special_tokens = map (\<lambda>c. [c]) (py_str ''!*&({[]}?,;$%@'')"

text \<open>\<open>re.match(r"^[A-Z]\d", token)\<close>.\<close>

definition re_cap_digit :: "unicode_db \<Rightarrow> pystr \<Rightarrow> bool" where
  "re_cap_digit U token = (case token of c # d # rest \<Rightarrow> is_AZ c \<and> re_d U d | _ \<Rightarrow> False)"

definition format_token :: "unicode_db \<Rightarrow> pystr \<Rightarrow> pystr option" where
  "format_token U token =
     (if token = [] then Some token
      else if token \<in> set special_tokens then Some token
      else if py_isupper U token then Some token
      else if py_islower U token then Some token
      else if re_cap_digit U token then Some token
      else do {
        c \<leftarrow> py_index token 0;
        Some (py_upper1 U c @ py_lower U (drop 1 token))
      })"

text \<open>\<open>re.match(r"^\d+(?:\.\d+)+$", token)\<close>: the digits and groups must reach the
  end of the token, or the line feed that ends it.  Only the longest match of the
  digits and groups can be followed by the end: a shorter one is followed by a digit
  or a dot.\<close>

definition re_decimal_whole :: "unicode_db \<Rightarrow> pystr \<Rightarrow> bool" where
  "re_decimal_whole U token =
     (let d = digits_len U token; g = dot_groups_len U (drop d token); n = d + g
      in 0 < d \<and> 0 < g \<and> (n = length token \<or> (Suc n = length token \<and> token ! n = 10)))"

definition is_numeric_token :: "unicode_db \<Rightarrow> pystr \<Rightarrow> bool" where
  "is_numeric_token U token =
     (if token = [] then False else py_isdigit U token \<or> re_decimal_whole U token)"

definition is_alphanumeric_token :: "unicode_db \<Rightarrow> pystr \<Rightarrow> bool option" where
  "is_alphanumeric_token U token =
     (if token = [] then Some False
      else do { c \<leftarrow> py_index token 0; Some (ch_isalpha U c) })"

section \<open>The spacing rules\<close>

definition NO_SPACE :: "pystr set" where
  "NO_SPACE = {py_str ''*'', py_str ''@'', [39]}"

definition LEADING_SPACE :: "pystr set" where
  "LEADING_SPACE = {py_str ''('', py_str ''{'', py_str ''[''}"

definition TRAILING_SPACE :: "pystr set" where
  "TRAILING_SPACE =
     {py_str ''!'', py_str ''?'', py_str '','', py_str '';'', py_str '')'', py_str '']'',
      py_str ''}''}"

text \<open>The two decisions of the loop body of \<open>apply_spacing_rules\<close>.  \<open>if prev_token:\<close>
  is false for \<open>None\<close> and for the empty string.\<close>

definition needs_space_before :: "unicode_db \<Rightarrow> pystr option \<Rightarrow> pystr \<Rightarrow> bool option" where
  "needs_space_before U prev_token token =
     (case prev_token of
        None \<Rightarrow> Some False
      | Some prev \<Rightarrow>
          if prev = [] then Some False
          else if token \<in> NO_SPACE then Some False
          else if token \<in> TRAILING_SPACE then Some False
          else if token = py_str ''$'' then
            (if \<not> is_numeric_token U prev then is_alphanumeric_token U prev else Some False)
          else if token = py_str ''%'' then
            (if \<not> is_numeric_token U prev then is_alphanumeric_token U prev else Some False)
          else if token \<in> LEADING_SPACE then is_alphanumeric_token U prev
          else if prev \<in> NO_SPACE then Some False
          else if prev \<in> TRAILING_SPACE then Some False
          else if prev \<in> LEADING_SPACE then Some False
          else if prev = py_str ''$'' \<and> is_numeric_token U token then Some False
          else if prev = py_str ''%'' then Some False
          else Some True)"

definition needs_space_after :: "unicode_db \<Rightarrow> pystr option \<Rightarrow> pystr \<Rightarrow> bool option" where
  "needs_space_after U next_token token =
     (case next_token of
        None \<Rightarrow> Some False
      | Some nxt \<Rightarrow>
          if nxt = [] then Some False
          else if token \<in> NO_SPACE then Some False
          else if token = py_str ''$'' then
            (if \<not> is_numeric_token U nxt then Some False else Some False)
          else if token = py_str ''%'' then is_alphanumeric_token U nxt
          else if token \<in> TRAILING_SPACE then Some (nxt \<notin> NO_SPACE)
          else Some False)"

definition spaced_token :: "unicode_db \<Rightarrow> pystr list \<Rightarrow> nat \<Rightarrow> pystr \<Rightarrow> pystr option" where
  "spaced_token U tokens i token = do {
     prev_token \<leftarrow> (if i > 0 then map_option Some (py_index tokens (int i - 1)) else Some None);
     next_token \<leftarrow> (if i + 1 < length tokens then map_option Some (py_index tokens (int i + 1))
                    else Some None);
     before \<leftarrow> needs_space_before U prev_token token;
     after \<leftarrow> needs_space_after U next_token token;
     Some ((if before then py_str '' '' else []) @ token @ (if after then py_str '' '' else []))
   }"

text \<open>\<open>for i, token in enumerate(tokens)\<close>, appending to \<open>result\<close>.\<close>

fun spacing_loop ::
  "unicode_db \<Rightarrow> pystr list \<Rightarrow> (nat \<times> pystr) list \<Rightarrow> pystr list \<Rightarrow> pystr list option" where
  "spacing_loop U tokens [] result = Some result"
| "spacing_loop U tokens ((i, token) # rest) result = do {
     spaced \<leftarrow> spaced_token U tokens i token;
     spacing_loop U tokens rest (result @ [spaced])
   }"

definition apply_spacing_rules :: "unicode_db \<Rightarrow> pystr list \<Rightarrow> pystr list option" where
  "apply_spacing_rules U tokens =
     (if tokens = [] then Some []
      else let tokens = filter (\<lambda>t. t \<noteq> []) tokens
           in if tokens = [] then Some []
              else spacing_loop U tokens (enumerate 0 tokens) [])"

section \<open>Formatting a string\<close>

text \<open>The \<open>while\<close> loop of \<open>format_pascal_words\<close> that merges a token of digits with
  a lowercase token after it.\<close>

function merge_loop ::
  "unicode_db \<Rightarrow> pystr list \<Rightarrow> nat \<Rightarrow> (pystr \<times> bool) list \<Rightarrow> (pystr \<times> bool) list option" where
  "merge_loop U segment_tokens i merged_tokens =
     (if i < length segment_tokens then do {
        current_token \<leftarrow> py_index segment_tokens (int i);
        mergeable \<leftarrow>
          (if py_isdigit U current_token \<and> i + 1 < length segment_tokens
           then map_option (py_islower U) (py_index segment_tokens (int i + 1))
           else Some False);
        if mergeable then do {
          next_token \<leftarrow> py_index segment_tokens (int i + 1);
          merge_loop U segment_tokens (i + 2) (merged_tokens @ [(current_token @ next_token, True)])
        }
        else merge_loop U segment_tokens (i + 1) (merged_tokens @ [(current_token, False)])
      }
      else Some merged_tokens)"
  by pat_completeness auto
termination
  by (relation "measure (\<lambda>(U, segment_tokens, i, merged_tokens). length segment_tokens - i)")
    auto

text \<open>The loop of the \<open>else\<close> branch: merged tokens as they are, the others through
  \<open>_format_token\<close>.\<close>

fun format_normally ::
  "unicode_db \<Rightarrow> (pystr \<times> bool) list \<Rightarrow> pystr list \<Rightarrow> pystr list option" where
  "format_normally U [] segment_formatted = Some segment_formatted"
| "format_normally U ((token, is_merged) # rest) segment_formatted =
     (if is_merged then format_normally U rest (segment_formatted @ [token])
      else do {
        formatted \<leftarrow> format_token U token;
        format_normally U rest (segment_formatted @ [formatted])
      })"

text \<open>The body of the loop over the segments: the tokens of one segment, formatted.\<close>

definition format_segment :: "unicode_db \<Rightarrow> pystr \<Rightarrow> pystr list option" where
  "format_segment U segment = do {
     merged_tokens \<leftarrow> merge_loop U (tokenize_pascal_case U segment) 0 [];
     starts_lower \<leftarrow>
       (if segment \<noteq> [] then map_option (\<lambda>c. py_islower U [c]) (py_index segment 0)
        else Some False);
     if starts_lower then Some (map fst merged_tokens)
     else format_normally U merged_tokens []
   }"

fun segments_loop :: "unicode_db \<Rightarrow> pystr list \<Rightarrow> pystr list \<Rightarrow> pystr list option" where
  "segments_loop U [] formatted_tokens = Some formatted_tokens"
| "segments_loop U (segment # rest) formatted_tokens = do {
     segment_formatted \<leftarrow> format_segment U segment;
     segments_loop U rest (formatted_tokens @ segment_formatted)
   }"

definition format_pascal_words :: "unicode_db \<Rightarrow> pystr \<Rightarrow> pystr option" where
  "format_pascal_words U v =
     (if v = [] then Some []
      else do {
        formatted_tokens \<leftarrow> segments_loop U (filter (\<lambda>seg. seg \<noteq> []) (py_split 95 v)) [];
        spaced_tokens \<leftarrow> apply_spacing_rules U formatted_tokens;
        Some (py_strip U (concat spaced_tokens))
      })"

section \<open>Family and subfamily\<close>

definition split_at_hyphen :: "pystr \<Rightarrow> pystr list" where
  "split_at_hyphen b = (if 45 \<notin> set b then [b, []] else py_split1 45 b)"

text \<open>\<open>left, right = ...\<close>: ValueError unless there are two values.\<close>

definition unpack2 :: "'a list \<Rightarrow> ('a \<times> 'a) option" where
  "unpack2 xs = (case xs of [a, b] \<Rightarrow> Some (a, b) | _ \<Rightarrow> None)"

definition split_family_subfamily :: "unicode_db \<Rightarrow> pystr \<Rightarrow> bool \<Rightarrow> (pystr \<times> pystr) option" where
  "split_family_subfamily U input_name strip_extension = do {
     (left, right) \<leftarrow> unpack2 (split_at_hyphen (normalize_basename input_name strip_extension));
     fam \<leftarrow> format_pascal_words U left;
     sub \<leftarrow> (if right \<noteq> [] then format_pascal_words U right else Some []);
     Some (fam, sub)
   }"

definition family_from_filename :: "unicode_db \<Rightarrow> pystr \<Rightarrow> bool \<Rightarrow> pystr option" where
  "family_from_filename U input_name strip_extension =
     map_option fst (split_family_subfamily U input_name strip_extension)"

definition subfamily_from_filename :: "unicode_db \<Rightarrow> pystr \<Rightarrow> bool \<Rightarrow> pystr option" where
  "subfamily_from_filename U input_name strip_extension =
     map_option snd (split_family_subfamily U input_name strip_extension)"

record ParsedName =
  original :: pystr
  base :: pystr
  family_raw :: pystr
  subfamily_raw :: pystr
  family :: pystr
  subfamily :: pystr

definition parse_filename :: "unicode_db \<Rightarrow> pystr \<Rightarrow> bool \<Rightarrow> ParsedName option" where
  "parse_filename U input_name strip_extension = do {
     let b = normalize_basename input_name strip_extension;
     (left, right) \<leftarrow> unpack2 (split_at_hyphen b);
     fam \<leftarrow> format_pascal_words U left;
     sub \<leftarrow> (if right \<noteq> [] then format_pascal_words U right else Some []);
     Some \<lparr> original = input_name, base = b, family_raw = left, subfamily_raw = right,
            family = fam, subfamily = sub \<rparr>
   }"

section \<open>Notions used in the statements\<close>

text \<open>
  What each loop computes, as functions that cannot fail, and the notions the
  theorems are stated with.  \<open>chain\<close> says that matches follow one another inside the
  input; \<open>title_case\<close> is the last line of \<open>_format_token\<close>; \<open>spaced\<close> is the
  entry the spacing loop emits for a token; \<open>merge_scan\<close> is the merging loop read
  as one pass over the list; \<open>segment_formatted\<close>, \<open>formatted_tokens\<close> and
  \<open>spaced_tokens\<close> are the stages of \<open>format_pascal_words\<close>.
\<close>

fun chain :: "nat \<Rightarrow> nat \<Rightarrow> (nat \<times> nat) list \<Rightarrow> bool" where
  "chain n p [] = True"
| "chain n p ((st, en) # ms) = (p \<le> st \<and> st < en \<and> en \<le> n \<and> chain n en ms)"

definition title_case :: "unicode_db \<Rightarrow> pystr \<Rightarrow> pystr" where
  "title_case U token = py_upper1 U (hd token) @ py_lower U (drop 1 token)"

definition starts_with_letter :: "unicode_db \<Rightarrow> pystr \<Rightarrow> bool" where
  "starts_with_letter U token = (token \<noteq> [] \<and> ch_isalpha U (hd token))"

definition prev_of :: "pystr list \<Rightarrow> nat \<Rightarrow> pystr option" where
  "prev_of tokens i = (if 0 < i then Some (tokens ! (i - 1)) else None)"

definition next_of :: "pystr list \<Rightarrow> nat \<Rightarrow> pystr option" where
  "next_of tokens i = (if i + 1 < length tokens then Some (tokens ! (i + 1)) else None)"

definition spaced :: "unicode_db \<Rightarrow> pystr list \<Rightarrow> nat \<Rightarrow> pystr" where
  "spaced U tokens i =
     (if the (needs_space_before U (prev_of tokens i) (tokens ! i)) then [32] else [])
     @ tokens ! i
     @ (if the (needs_space_after U (next_of tokens i) (tokens ! i)) then [32] else [])"

fun merge_scan :: "unicode_db \<Rightarrow> pystr list \<Rightarrow> (pystr \<times> bool) list" where
  "merge_scan U [] = []"
| "merge_scan U [t] = [(t, False)]"
| "merge_scan U (t # n # rest) =
     (if py_isdigit U t \<and> py_islower U n then (t @ n, True) # merge_scan U rest
      else (t, False) # merge_scan U (n # rest))"

definition formatted_unit :: "unicode_db \<Rightarrow> pystr \<times> bool \<Rightarrow> pystr" where
  "formatted_unit U m = (if snd m then fst m else the (format_token U (fst m)))"

definition segment_formatted :: "unicode_db \<Rightarrow> pystr \<Rightarrow> pystr list" where
  "segment_formatted U seg =
     (if seg \<noteq> [] \<and> ch_islower U (hd seg)
      then map fst (merge_scan U (tokenize_pascal_case U seg))
      else map (formatted_unit U) (merge_scan U (tokenize_pascal_case U seg)))"

definition formatted_tokens :: "unicode_db \<Rightarrow> pystr \<Rightarrow> pystr list" where
  "formatted_tokens U v =
     concat (map (segment_formatted U) (filter (\<lambda>seg. seg \<noteq> []) (py_split 95 v)))"

definition spaced_tokens :: "unicode_db \<Rightarrow> pystr list \<Rightarrow> pystr list" where
  "spaced_tokens U tokens =
     map (spaced U (filter (\<lambda>t. t \<noteq> []) tokens)) [0..<length (filter (\<lambda>t. t \<noteq> []) tokens)]"

text \<open>A property of the character database that the tables of Unicode have: no letter
  is a digit.\<close>

definition letters_not_digits :: "unicode_db \<Rightarrow> bool" where
  "letters_not_digits U = (\<forall>c. uc_isalpha U c \<longrightarrow> \<not> uc_isdigit U c \<and> \<not> uc_isdecimal U c)"

text \<open>The conditions of the merge in the words of the specification.\<close>

definition purely_digits :: "unicode_db \<Rightarrow> pystr \<Rightarrow> bool" where
  "purely_digits U t = (t \<noteq> [] \<and> list_all (ch_isdigit U) t)"

definition purely_lowercase_letters :: "unicode_db \<Rightarrow> pystr \<Rightarrow> bool" where
  "purely_lowercase_letters U t = (t \<noteq> [] \<and> list_all (ch_islower U) t)"

fun merge_as_specified :: "unicode_db \<Rightarrow> pystr list \<Rightarrow> (pystr \<times> bool) list" where
  "merge_as_specified U [] = []"
| "merge_as_specified U [t] = [(t, False)]"
| "merge_as_specified U (t # n # rest) =
     (if purely_digits U t \<and> purely_lowercase_letters U n
      then (t @ n, True) # merge_as_specified U rest
      else (t, False) # merge_as_specified U (n # rest))"

text \<open>No lowercase letter of the database is also an uppercase or a titlecase letter.\<close>

definition lower_not_upper :: "unicode_db \<Rightarrow> bool" where
  "lower_not_upper U = (\<forall>c. uc_islower U c \<longrightarrow> \<not> uc_isupper U c \<and> \<not> uc_istitle U c)"

text \<open>Two consecutive spaces somewhere in a string.\<close>

fun has_double_space :: "pystr \<Rightarrow> bool" where
  "has_double_space (a # b # cs) = ((a = 32 \<and> b = 32) \<or> has_double_space (b # cs))"
| "has_double_space cs = False"

text \<open>A property of the character database that the tables of Unicode have: the
  uppercase and lowercase mappings bring no space into a string.\<close>

definition case_maps_add_no_space :: "unicode_db \<Rightarrow> bool" where
  "case_maps_add_no_space U =
     ((\<forall>c. 128 \<le> c \<longrightarrow> 32 \<notin> set (uc_upper U c))
      \<and> (\<forall>s. 32 \<notin> set s \<longrightarrow> 32 \<notin> set (uc_lower U s)))"

section \<open>Properties of the tokenizer\<close>

text \<open>The recursive equations of the loops are unfolded by hand.\<close>

declare finditer_from.simps [simp del]

declare merge_loop.simps [simp del]

lemma chain_mono: "chain n p ms \<Longrightarrow> q \<le> p \<Longrightarrow> chain n q ms"
  by (cases ms) auto

lemma finditer_from_chain: "chain (length s) pos (finditer_from U s pos)"
proof (induction U s pos rule: finditer_from.induct)
  case (1 U s pos)
  show ?case
  proof (cases "length s \<le> pos")
    case True
    then show ?thesis by (simp add: finditer_from.simps)
  next
    case False
    show ?thesis
    proof (cases "match_at U s pos")
      case None
      have "chain (length s) (Suc pos) (finditer_from U s (Suc pos))"
        using 1(1) False None by simp
      then have "chain (length s) pos (finditer_from U s (Suc pos))"
        by (rule chain_mono) simp
      then show ?thesis using False None by (simp add: finditer_from.simps [of U s pos])
    next
      case (Some n)
      have "chain (length s) (pos + n) (finditer_from U s (pos + n))"
        using 1(2) False Some by simp
      then show ?thesis
        using False Some match_at_bounds [OF Some]
        by (simp add: finditer_from.simps [of U s pos])
    qed
  qed
qed

lemma take_py_slice: "p \<le> st \<Longrightarrow> take p v @ py_slice v p st = take st v"
  using take_add [of p "st - p" v] by (simp add: py_slice_def)

lemma py_slice_nonempty: "a < b \<Longrightarrow> b \<le> length v \<Longrightarrow> py_slice v a b \<noteq> []"
  by (simp add: py_slice_def)

lemma fold_tokenize_step:
  assumes "chain (length v) p ms" "concat toks = take p v" "[] \<notin> set toks"
  shows "case fold (tokenize_step v) ms (toks, p) of
           (toks', p') \<Rightarrow> concat toks' = take p' v \<and> [] \<notin> set toks' \<and> p' \<le> max p (length v)"
  using assms
proof (induction ms arbitrary: toks p)
  case Nil
  then show ?case by simp
next
  case (Cons m ms)
  obtain st en where m: "m = (st, en)" by (cases m)
  from Cons.prems(1) m have b: "p \<le> st" "st < en" "en \<le> length v" "chain (length v) en ms"
    by auto
  let ?toks = "(if st > p then toks @ [py_slice v p st] else toks) @ [py_slice v st en]"
  have step: "tokenize_step v m (toks, p) = (?toks, en)"
    by (simp add: tokenize_step_def m)
  have "concat ?toks = take p v @ py_slice v p st @ py_slice v st en"
    using Cons.prems(2) b(1) by (auto simp: py_slice_def)
  also have "\<dots> = take en v"
    using b by (simp add: take_py_slice flip: append_assoc)
  finally have c: "concat ?toks = take en v" .
  have ne: "[] \<notin> set ?toks"
    using Cons.prems(3) b py_slice_nonempty [of p st v] py_slice_nonempty [of st en v]
    by auto
  from Cons.IH [OF b(4) c ne] b show ?case
    by (auto simp: step split: prod.splits)
qed

lemma tokenize_concat:
  "concat (tokenize_pascal_case U s) = s \<and> [] \<notin> set (tokenize_pascal_case U s)"
proof (cases "s = []")
  case True
  then show ?thesis by (simp add: tokenize_pascal_case_def)
next
  case False
  obtain toks p where f: "fold (tokenize_step s) (finditer U s) ([], 0) = (toks, p)"
    by (cases "fold (tokenize_step s) (finditer U s) ([], 0)")
  have "chain (length s) 0 (finditer U s)"
    unfolding finditer_def by (rule finditer_from_chain)
  from fold_tokenize_step [OF this, of "[]"] f
  have inv: "concat toks = take p s" "[] \<notin> set toks" "p \<le> length s"
    by auto
  show ?thesis
    using False f inv by (auto simp: tokenize_pascal_case_def)
qed

text \<open>
  Claim C1.  For every string \<open>s\<close> and every character database, the tokens of
  \<open>tokenize_pascal_case(s)\<close>, concatenated in order with no separator, are \<open>s\<close>
  itself: the matches of the pattern and the spans between them, which the loop emits
  verbatim, cover the input once and in order.  No token is empty.
\<close>

theorem C1_tokenize_lossless:
  "concat (tokenize_pascal_case U s) = s \<and> [] \<notin> set (tokenize_pascal_case U s)"
proof (cases "s = []")
  case True
  then show ?thesis by (simp add: tokenize_pascal_case_def)
next
  case False
  obtain toks p where f: "fold (tokenize_step s) (finditer U s) ([], 0) = (toks, p)"
    by (cases "fold (tokenize_step s) (finditer U s) ([], 0)")
  have c: "chain (length s) 0 (finditer U s)"
    unfolding finditer_def by (rule finditer_from_chain)
  have "case fold (tokenize_step s) (finditer U s) ([], 0) of
          (toks', p') \<Rightarrow> concat toks' = take p' s \<and> [] \<notin> set toks' \<and> p' \<le> max 0 (length s)"
    by (rule fold_tokenize_step [OF c]) simp_all
  then have inv: "concat toks = take p s" "[] \<notin> set toks" "p \<le> length s"
    by (simp_all add: f)
  show ?thesis
  proof (cases "p < length s")
    case True
    then have "tokenize_pascal_case U s = toks @ [drop p s]"
      using False by (simp add: tokenize_pascal_case_def f)
    then show ?thesis using inv True by simp
  next
    case False
    then have "p = length s" using inv(3) by simp
    moreover have "tokenize_pascal_case U s = toks"
      using False \<open>s \<noteq> []\<close> by (simp add: tokenize_pascal_case_def f)
    ultimately show ?thesis using inv by simp
  qed
qed

theorem C1_tokenize_lossless_witness:
  "concat (tokenize_pascal_case ascii_db (py_str ''XMLHttp 35mm''))
     = py_str ''XMLHttp 35mm''
   \<and> [] \<notin> set (tokenize_pascal_case ascii_db (py_str ''XMLHttp 35mm''))"
  by (rule C1_tokenize_lossless)

section \<open>The functions without their exceptions\<close>

text \<open>
  No index of the source is ever out of range, so each function returns a value; the
  lemmas of this section say which, by functions that cannot fail: \<open>spaced\<close> for the
  body of the spacing loop, \<open>merge_scan\<close> for the merging pass read as one pass over
  the list, \<open>segment_formatted\<close>, \<open>formatted_tokens\<close> and \<open>spaced_tokens\<close> for the
  stages of \<open>format_pascal_words\<close>.
\<close>

lemma py_index_nat: "i < length xs \<Longrightarrow> py_index xs (int i) = Some (xs ! i)"
  by (simp add: py_index_def)

lemma py_index_0: "xs \<noteq> [] \<Longrightarrow> py_index xs 0 = Some (hd xs)"
  by (cases xs) (simp_all add: py_index_def)

lemma py_index_pred: "0 < i \<Longrightarrow> i \<le> length xs \<Longrightarrow> py_index xs (int i - 1) = Some (xs ! (i - 1))"
  using py_index_nat [of "i - 1" xs] by (simp add: of_nat_diff)

lemma py_index_succ: "i + 1 < length xs \<Longrightarrow> py_index xs (int i + 1) = Some (xs ! (i + 1))"
  using py_index_nat [of "i + 1" xs] by (simp add: add.commute)

lemma format_token_cases:
  "format_token U token = Some token \<or> format_token U token = Some (title_case U token)"
  by (simp add: format_token_def title_case_def py_index_0)

lemma format_token_total: "\<exists>r. format_token U token = Some r"
  using format_token_cases [of U token] by auto

lemma is_alphanumeric_token_eq:
  "is_alphanumeric_token U token = Some (starts_with_letter U token)"
  by (simp add: is_alphanumeric_token_def starts_with_letter_def py_index_0)

lemma ex_bool_simps: "(\<exists>b. \<not> b) = True" "(\<exists>b::bool. b) = True" "Ex Not = True"
  by auto

lemma needs_space_before_total: "\<exists>b. needs_space_before U prev token = Some b"
  unfolding needs_space_before_def is_alphanumeric_token_eq
  by (cases prev) (simp_all add: ex_bool_simps)

lemma needs_space_after_total: "\<exists>b. needs_space_after U nxt token = Some b"
  unfolding needs_space_after_def is_alphanumeric_token_eq
  by (cases nxt) (simp_all add: ex_bool_simps)

lemma py_str_space: "py_str '' '' = [32]"
  by (simp add: py_str_def)

lemma spaced_token_eq:
  assumes "i < length tokens"
  shows "spaced_token U tokens i (tokens ! i) = Some (spaced U tokens i)"
proof -
  obtain b where b: "needs_space_before U (prev_of tokens i) (tokens ! i) = Some b"
    using needs_space_before_total by blast
  obtain a where a: "needs_space_after U (next_of tokens i) (tokens ! i) = Some a"
    using needs_space_after_total by blast
  have p: "(if i > 0 then map_option Some (py_index tokens (int i - 1)) else Some None)
      = Some (prev_of tokens i)"
    using assms by (simp add: prev_of_def py_index_pred)
  have n: "(if i + 1 < length tokens then map_option Some (py_index tokens (int i + 1))
      else Some None) = Some (next_of tokens i)"
    by (simp add: next_of_def py_index_succ)
  show ?thesis
    unfolding spaced_token_def p n by (simp add: a b spaced_def py_str_space)
qed

lemma spacing_loop_eq:
  assumes "\<forall>(i, t) \<in> set es. i < length tokens \<and> t = tokens ! i"
  shows "spacing_loop U tokens es acc = Some (acc @ map (\<lambda>(i, t). spaced U tokens i) es)"
  using assms
proof (induction es arbitrary: acc)
  case Nil
  then show ?case by simp
next
  case (Cons e es)
  obtain i t where e: "e = (i, t)" by (cases e)
  with Cons.prems have it: "i < length tokens" "t = tokens ! i" by auto
  have "spacing_loop U tokens es (acc @ [spaced U tokens i])
      = Some ((acc @ [spaced U tokens i]) @ map (\<lambda>(i, t). spaced U tokens i) es)"
    using Cons.prems by (intro Cons.IH) auto
  then show ?case
    using it by (simp add: e spaced_token_eq)
qed

lemma map_enumerate_index:
  "map (\<lambda>(i, t). f i) (enumerate n xs) = map f [n..<n + length xs]"
proof (induction xs arbitrary: n)
  case Nil
  show ?case by simp
next
  case (Cons x xs)
  have "[n..<n + length (x # xs)] = n # [Suc n..<Suc n + length xs]"
    by (subst upt_rec) simp
  then show ?case using Cons.IH [of "Suc n"] by simp
qed

lemma apply_spacing_rules_eq:
  "apply_spacing_rules U tokens =
     Some (map (spaced U (filter (\<lambda>t. t \<noteq> []) tokens))
             [0..<length (filter (\<lambda>t. t \<noteq> []) tokens)])"
proof -
  let ?ts = "filter (\<lambda>t. t \<noteq> []) tokens"
  have "\<forall>(i, t) \<in> set (enumerate 0 ?ts). i < length ?ts \<and> t = ?ts ! i"
    by (auto simp: in_set_enumerate_eq)
  from spacing_loop_eq [OF this, of U "[]"]
  have "spacing_loop U ?ts (enumerate 0 ?ts) [] = Some (map (spaced U ?ts) [0..<length ?ts])"
    by (simp add: map_enumerate_index)
  then show ?thesis
    by (cases "tokens = []") (simp_all add: apply_spacing_rules_def Let_def)
qed

lemma merge_loop_eq:
  "i \<le> length toks \<Longrightarrow> merge_loop U toks i acc = Some (acc @ merge_scan U (drop i toks))"
proof (induction "length toks - i" arbitrary: i acc rule: less_induct)
  case less
  show ?case
  proof (cases "i < length toks")
    case False
    with less.prems show ?thesis by (subst merge_loop.simps) simp
  next
    case True
    note i = True
    have cur: "py_index toks (int i) = Some (toks ! i)"
      using i by (rule py_index_nat)
    show ?thesis
    proof (cases "Suc i < length toks")
      case False
      then have d: "drop i toks = [toks ! i]"
        using i by (metis Cons_nth_drop_Suc drop_all not_less)
      have "merge_loop U toks (i + 1) (acc @ [(toks ! i, False)])
          = Some ((acc @ [(toks ! i, False)]) @ merge_scan U (drop (i + 1) toks))"
        using i by (intro less.hyps) auto
      then show ?thesis
        using i False by (simp add: merge_loop.simps [of U toks i] cur d)
    next
      case True
      then have d: "drop i toks = toks ! i # toks ! Suc i # drop (i + 2) toks"
        using i by (simp add: Cons_nth_drop_Suc)
      have nxt: "py_index toks (int i + 1) = Some (toks ! Suc i)"
        using py_index_succ [of i toks] True by simp
      have one: "merge_loop U toks (i + 1) (acc @ [(toks ! i, False)])
          = Some ((acc @ [(toks ! i, False)]) @ merge_scan U (drop (i + 1) toks))"
        using i by (intro less.hyps) auto
      have two: "merge_loop U toks (i + 2) (acc @ [(toks ! i @ toks ! Suc i, True)])
          = Some ((acc @ [(toks ! i @ toks ! Suc i, True)]) @ merge_scan U (drop (i + 2) toks))"
        using True by (intro less.hyps) auto
      have d1: "drop (Suc i) toks = toks ! Suc i # drop (Suc (Suc i)) toks"
        using True by (simp add: Cons_nth_drop_Suc)
      show ?thesis
        using i True one two
        by (simp add: merge_loop.simps [of U toks i] cur nxt d d1)
    qed
  qed
qed

lemma format_normally_eq:
  "format_normally U ms acc = Some (acc @ map (formatted_unit U) ms)"
proof (induction ms arbitrary: acc)
  case Nil
  show ?case by simp
next
  case (Cons m ms)
  obtain t b where m: "m = (t, b)" by (cases m)
  obtain r where r: "format_token U t = Some r" using format_token_total by blast
  show ?case by (simp add: m r Cons.IH formatted_unit_def)
qed

lemma py_islower_single: "py_islower U [c] = ch_islower U c"
  by (simp add: py_islower_def)

lemma format_segment_eq: "format_segment U seg = Some (segment_formatted U seg)"
proof -
  have m: "merge_loop U (tokenize_pascal_case U seg) 0 []
      = Some (merge_scan U (tokenize_pascal_case U seg))"
    using merge_loop_eq [of 0 "tokenize_pascal_case U seg" U "[]"] by simp
  have idx: "(if seg \<noteq> [] then map_option (\<lambda>c. py_islower U [c]) (py_index seg 0)
      else Some False) = Some (seg \<noteq> [] \<and> ch_islower U (hd seg))"
    by (cases seg) (simp_all add: py_index_def py_islower_single)
  show ?thesis
    unfolding format_segment_def m idx
    by (simp add: segment_formatted_def format_normally_eq)
qed

lemma segments_loop_eq:
  "segments_loop U segs acc = Some (acc @ concat (map (segment_formatted U) segs))"
  by (induction segs arbitrary: acc) (simp_all add: format_segment_eq)

lemma format_pascal_words_eq:
  "format_pascal_words U v = Some (py_strip U (concat (spaced_tokens U (formatted_tokens U v))))"
proof (cases "v = []")
  case True
  then show ?thesis
    by (simp add: format_pascal_words_def formatted_tokens_def spaced_tokens_def py_split_def
        py_strip_def)
next
  case False
  then show ?thesis
    by (simp add: format_pascal_words_def segments_loop_eq apply_spacing_rules_eq
        formatted_tokens_def spaced_tokens_def)
qed

lemma format_pascal_words_total: "\<exists>r. format_pascal_words U v = Some r"
  by (simp add: format_pascal_words_eq)

lemma split_at_hyphen_two: "\<exists>l r. split_at_hyphen b = [l, r]"
  by (simp add: split_at_hyphen_def py_split1_def)

lemma split_family_subfamily_total: "\<exists>r. split_family_subfamily U s e = Some r"
proof -
  obtain l r where lr: "split_at_hyphen (normalize_basename s e) = [l, r]"
    using split_at_hyphen_two by blast
  show ?thesis
    by (simp add: split_family_subfamily_def lr unpack2_def format_pascal_words_eq)
qed

lemma parse_filename_total: "\<exists>r. parse_filename U s e = Some r"
proof -
  obtain l r where lr: "split_at_hyphen (normalize_basename s e) = [l, r]"
    using split_at_hyphen_two by blast
  show ?thesis
    by (simp add: parse_filename_def lr unpack2_def format_pascal_words_eq)
qed

lemma normalize_basename_empty: "normalize_basename [] e = []"
  by (simp add: normalize_basename_def basename_def sanitize_forbidden_characters_def
      py_str_def py_endswith_def splitext_root_def py_rfind_def py_slice_def)

lemma parse_filename_empty:
  "parse_filename U [] e = Some \<lparr> original = [], base = [], family_raw = [],
     subfamily_raw = [], family = [], subfamily = [] \<rparr>"
  by (simp add: parse_filename_def normalize_basename_empty split_at_hyphen_def
      unpack2_def format_pascal_words_def)

lemma split_family_subfamily_empty: "split_family_subfamily U [] e = Some ([], [])"
  by (simp add: split_family_subfamily_def normalize_basename_empty split_at_hyphen_def
      unpack2_def format_pascal_words_def)

text \<open>
  Claim C8.  For every string (any code points at all), every character database and
  either value of \<open>strip_extension\<close>, \<open>format_pascal_words\<close>,
  \<open>split_family_subfamily\<close> and \<open>parse_filename\<close> return a value: none of the
  indexings and unpackings of the source raises.  On the empty string
  \<open>format_pascal_words\<close> returns the empty string, \<open>split_family_subfamily\<close> the
  pair of two empty strings, and \<open>parse_filename\<close> a record of empty fields.
\<close>

theorem C8_never_raises:
  "(\<exists>r. format_pascal_words U s = Some r)
   \<and> (\<exists>r. split_family_subfamily U s e = Some r)
   \<and> (\<exists>r. parse_filename U s e = Some r)
   \<and> format_pascal_words U [] = Some []
   \<and> split_family_subfamily U [] e = Some ([], [])
   \<and> parse_filename U [] e = Some \<lparr> original = [], base = [], family_raw = [],
        subfamily_raw = [], family = [], subfamily = [] \<rparr>"
  using format_pascal_words_total [of U s] split_family_subfamily_total [of U s e]
    parse_filename_total [of U s e] split_family_subfamily_empty [of U e]
    parse_filename_empty [of U e]
  by (simp add: format_pascal_words_def)

theorem C8_never_raises_witness:
  "(\<exists>r. format_pascal_words ascii_db (py_str ''!?-(*'') = Some r)
   \<and> (\<exists>r. split_family_subfamily ascii_db (py_str ''!?-(*'') True = Some r)
   \<and> (\<exists>r. parse_filename ascii_db (py_str ''!?-(*'') True = Some r)
   \<and> format_pascal_words ascii_db [] = Some []
   \<and> split_family_subfamily ascii_db [] True = Some ([], [])
   \<and> parse_filename ascii_db [] True = Some \<lparr> original = [], base = [], family_raw = [],
        subfamily_raw = [], family = [], subfamily = [] \<rparr>"
  by (rule C8_never_raises)

section \<open>Normalization, and the split at the hyphen\<close>

lemma rfind_from_notin: "c \<notin> set xs \<Longrightarrow> rfind_from c xs i found = found"
  by (induction xs arbitrary: i found) auto

lemma py_rfind_notin: "c \<notin> set s \<Longrightarrow> py_rfind c s = - 1"
  by (simp add: py_rfind_def rfind_from_notin)

lemma py_startswith_set: "py_startswith s p \<Longrightarrow> set p \<subseteq> set s"
  unfolding py_startswith_def by (metis set_take_subset)

lemma py_contains_set: "py_contains sub s \<Longrightarrow> set sub \<subseteq> set s"
proof (induction s)
  case Nil
  then show ?case by simp
next
  case (Cons c cs)
  from Cons.prems consider "py_startswith (c # cs) sub" | "py_contains sub cs" by auto
  then show ?case
  proof cases
    case 1
    then show ?thesis by (rule py_startswith_set)
  next
    case 2
    then show ?thesis using Cons.IH by auto
  qed
qed

lemma rfind_from_lower: "- 1 \<le> found \<Longrightarrow> - 1 \<le> rfind_from c xs i found"
  by (induction xs arbitrary: i found) auto

lemma py_rfind_lower: "- 1 \<le> py_rfind c s"
  by (simp add: py_rfind_def rfind_from_lower)

lemma py_endswith_set: "py_endswith s p \<Longrightarrow> set p \<subseteq> set s"
  unfolding py_endswith_def by (metis set_drop_subset)

lemma py_replace_absent: "\<not> set old \<subseteq> set s \<Longrightarrow> py_replace old new s = s"
proof (induction s)
  case Nil
  show ?case by simp
next
  case (Cons c cs)
  have "\<not> py_startswith (c # cs) old" using Cons.prems py_startswith_set by blast
  moreover have "\<not> set old \<subseteq> set cs" using Cons.prems by auto
  ultimately show ?case using Cons.IH by simp
qed

lemma py_replace_set: "set (py_replace old new s) \<subseteq> set s \<union> set new"
proof (induction old new s rule: py_replace.induct)
  case (1 old new)
  show ?case by simp
next
  case (2 old new c cs)
  show ?case
  proof (cases "old \<noteq> [] \<and> py_startswith (c # cs) old")
    case True
    have "set (drop (length old) (c # cs)) \<subseteq> set (c # cs)" by (rule set_drop_subset)
    then show ?thesis using 2(1) True by auto
  next
    case False
    then show ?thesis using 2(2) by auto
  qed
qed

lemma basename_set: "set (basename p) \<subseteq> set p"
  unfolding basename_def by (rule set_drop_subset)

lemma splitext_root_set: "set (splitext_root p) \<subseteq> set p"
  unfolding splitext_root_def Let_def using set_take_subset [of _ p] by auto

lemma py_str_marker: "py_str ''.CFF2.'' = [46, 67, 70, 70, 50, 46]" "py_str ''.CFF2'' = [46, 67, 70, 70, 50]"
  "py_str ''.'' = [46]"
  by (simp_all add: py_str_def)

lemma normalize_basename_set: "set (normalize_basename s e) \<subseteq> set s \<union> {95, 46}"
proof -
  let ?b = "basename s"
  let ?c = "sanitize_forbidden_characters ?b"
  have c: "set ?c \<subseteq> set s \<union> {95}"
    unfolding sanitize_forbidden_characters_def
    using py_replace_set [of "[92]" "[95]" "py_replace [58] [95] ?b"]
      py_replace_set [of "[58]" "[95]" ?b] basename_set [of s]
    by auto
  let ?d = "if py_contains (py_str ''.CFF2.'') ?c
             then py_replace (py_str ''.CFF2.'') (py_str ''.'') ?c
             else if py_endswith ?c (py_str ''.CFF2'')
             then take (length ?c - 5) ?c
             else ?c"
  have d: "set ?d \<subseteq> set s \<union> {95, 46}"
    using c py_replace_set [of "py_str ''.CFF2.''" "py_str ''.''" ?c]
      set_take_subset [of "length ?c - 5" ?c]
    by (auto simp: py_str_marker)
  have "normalize_basename s e = (if e then splitext_root ?d else ?d)"
    by (simp add: normalize_basename_def Let_def)
  then show ?thesis using d splitext_root_set [of ?d] by auto
qed

lemma normalize_basename_plain:
  assumes "46 \<notin> set s" "47 \<notin> set s" "58 \<notin> set s" "92 \<notin> set s"
  shows "normalize_basename s e = s"
proof -
  have b: "basename s = s" using assms(2) by (simp add: basename_def py_rfind_notin)
  have c: "sanitize_forbidden_characters s = s"
    using assms(3,4) by (simp add: sanitize_forbidden_characters_def py_replace_absent)
  have m: "\<not> py_contains (py_str ''.CFF2.'') s"
    using py_contains_set [of "py_str ''.CFF2.''" s] assms(1) by (auto simp: py_str_marker)
  have n: "\<not> py_endswith s (py_str ''.CFF2'')"
    using py_endswith_set [of s "py_str ''.CFF2''"] assms(1) by (auto simp: py_str_marker)
  have x: "splitext_root s = s"
    using assms(1) py_rfind_lower [of 47 s]
    by (simp add: splitext_root_def Let_def py_rfind_notin)
  show ?thesis by (simp add: normalize_basename_def b c m n x)
qed

lemma split_no_hyphen:
  assumes "45 \<notin> set s"
  shows "split_family_subfamily U s e
     = map_option (\<lambda>f. (f, [])) (format_pascal_words U (normalize_basename s e))"
proof -
  have "45 \<notin> set (normalize_basename s e)"
    using normalize_basename_set [of s e] assms by auto
  then have "split_at_hyphen (normalize_basename s e) = [normalize_basename s e, []]"
    by (simp add: split_at_hyphen_def)
  then show ?thesis
    by (simp add: split_family_subfamily_def unpack2_def format_pascal_words_eq)
qed

text \<open>
  Claim C7, as amended.  The claim as written fails: \<open>split_family_subfamily\<close> works
  on the normalized base name, not on its argument, so a dot, a slash, a colon or a
  backslash in the input makes the two sides differ
  (the counterexample below: \<open>"Foo.ttf"\<close> gives \<open>("Foo", "")\<close>, while
  \<open>format_pascal_words("Foo.ttf")\<close> is \<open>"F oo. ttf"\<close>).  What holds: for every
  string \<open>s\<close> with no hyphen and either value of \<open>strip_extension\<close>,
  \<open>split_family_subfamily(s)\<close> is \<open>(format_pascal_words(b), "")\<close> for the
  normalized base name \<open>b\<close> of \<open>s\<close>; and when \<open>s\<close> has no dot, slash, colon or
  backslash either, \<open>b\<close> is \<open>s\<close> and the result is \<open>(format_pascal_words(s), "")\<close>.
\<close>

theorem C7_no_hyphen:
  "45 \<notin> set s \<Longrightarrow>
     split_family_subfamily U s e
       = map_option (\<lambda>f. (f, [])) (format_pascal_words U (normalize_basename s e))
     \<and> (46 \<notin> set s \<and> 47 \<notin> set s \<and> 58 \<notin> set s \<and> 92 \<notin> set s \<longrightarrow>
          split_family_subfamily U s e = map_option (\<lambda>f. (f, [])) (format_pascal_words U s))"
  using split_no_hyphen [of s U e] normalize_basename_plain [of s e] by auto

theorem C7_no_hyphen_witness:
  "45 \<notin> set (py_str ''NoHyphenName'')
   \<and> split_family_subfamily ascii_db (py_str ''NoHyphenName'') True
       = map_option (\<lambda>f. (f, []))
           (format_pascal_words ascii_db (normalize_basename (py_str ''NoHyphenName'') True))
   \<and> split_family_subfamily ascii_db (py_str ''NoHyphenName'') True
       = map_option (\<lambda>f. (f, [])) (format_pascal_words ascii_db (py_str ''NoHyphenName''))"
proof -
  have h: "45 \<notin> set (py_str ''NoHyphenName'')" by (simp add: py_str_def)
  have p: "46 \<notin> set (py_str ''NoHyphenName'') \<and> 47 \<notin> set (py_str ''NoHyphenName'')
      \<and> 58 \<notin> set (py_str ''NoHyphenName'') \<and> 92 \<notin> set (py_str ''NoHyphenName'')"
    by (simp add: py_str_def)
  show ?thesis using C7_no_hyphen [OF h, of ascii_db True] h p by blast
qed

theorem C7_counterexample:
  "45 \<notin> set (py_str ''Foo.ttf'')
   \<and> split_family_subfamily ascii_db (py_str ''Foo.ttf'') True = Some (py_str ''Foo'', [])
   \<and> format_pascal_words ascii_db (py_str ''Foo.ttf'') = Some (py_str ''F oo. ttf'')
   \<and> split_family_subfamily ascii_db (py_str ''Foo.ttf'') True
       \<noteq> map_option (\<lambda>f. (f, [])) (format_pascal_words ascii_db (py_str ''Foo.ttf''))"
  by code_simp

text \<open>
  Claim C9.  For every string \<open>s\<close> and every value of \<open>strip_extension\<close>,
  \<open>parse_filename\<close> returns a \<open>ParsedName\<close> whose \<open>family\<close> and \<open>subfamily\<close> are the
  two components of \<open>split_family_subfamily\<close> on the same arguments, and whose
  \<open>family\<close> is \<open>format_pascal_words\<close> of its own \<open>family_raw\<close>; \<open>original\<close> is the
  input and \<open>base\<close> the normalized base name.
\<close>

theorem C9_parse_filename_agrees:
  "\<exists>p. parse_filename U s e = Some p
       \<and> split_family_subfamily U s e = Some (family p, subfamily p)
       \<and> format_pascal_words U (family_raw p) = Some (family p)
       \<and> original p = s \<and> base p = normalize_basename s e"
proof -
  obtain l r where lr: "split_at_hyphen (normalize_basename s e) = [l, r]"
    using split_at_hyphen_two by blast
  show ?thesis
    by (simp add: parse_filename_def split_family_subfamily_def lr unpack2_def
        format_pascal_words_eq)
qed

theorem C9_parse_filename_agrees_witness:
  "\<exists>p. parse_filename ascii_db (py_str ''QueenSansExtra-ExtralightItalic.otf'') True = Some p
       \<and> split_family_subfamily ascii_db (py_str ''QueenSansExtra-ExtralightItalic.otf'') True
           = Some (family p, subfamily p)
       \<and> format_pascal_words ascii_db (family_raw p) = Some (family p)
       \<and> original p = py_str ''QueenSansExtra-ExtralightItalic.otf''
       \<and> base p = normalize_basename (py_str ''QueenSansExtra-ExtralightItalic.otf'') True"
  by (rule C9_parse_filename_agrees)

lemma py_startswith_append:
  "length p \<le> length u \<Longrightarrow> py_startswith (u @ v) p = py_startswith u p"
  by (simp add: py_startswith_def)

lemma py_replace_first:
  assumes "old \<noteq> []" "\<not> py_contains old (a @ butlast old)"
  shows "py_replace old new (a @ old @ b) = a @ new @ py_replace old new b"
  using assms(2)
proof (induction a)
  case Nil
  obtain c cs where o: "old @ b = c # cs" using assms(1) by (cases "old @ b") auto
  have "py_startswith (old @ b) old" by (simp add: py_startswith_def)
  then have "py_replace old new (old @ b) = new @ py_replace old new (drop (length old) (old @ b))"
    using assms(1) unfolding o by simp
  then show ?case by simp
next
  case (Cons x a)
  have len: "length old \<le> length ((x # a) @ butlast old)" by simp
  have e: "x # a @ old @ b = ((x # a) @ butlast old) @ [last old] @ b"
    using append_butlast_last_id [OF assms(1)] by (metis append.assoc append_Cons)
  have "\<not> py_startswith ((x # a) @ butlast old) old" using Cons.prems by simp
  then have n: "\<not> py_startswith (x # a @ old @ b) old"
    unfolding e using py_startswith_append [OF len] by simp
  have "\<not> py_contains old (a @ butlast old)" using Cons.prems by simp
  then show ?case using Cons.IH n by simp
qed

lemma py_contains_append: "old \<noteq> [] \<Longrightarrow> py_contains old (a @ old @ b)"
proof (induction a)
  case Nil
  then obtain c cs where o: "old @ b = c # cs" by (cases "old @ b") auto
  have "py_startswith (old @ b) old" by (simp add: py_startswith_def)
  then show ?case unfolding append_Nil o by simp
next
  case (Cons x a)
  then show ?case by simp
qed

lemma cff2_example:
  "split_family_subfamily U (py_str ''Helvetica-Regular.CFF2.otf'') True
     = Some (py_str ''Helvetica'', py_str ''Regular'')"
  by code_simp

text \<open>
  Claim C6.  Let \<open>c\<close> be the sanitized base name of the input.  If \<open>c\<close> contains
  \<open>".CFF2."\<close>, with its first occurrence after \<open>a\<close>, that occurrence becomes a single
  \<open>"."\<close> and the replacement goes on in the rest; otherwise, if \<open>c\<close> ends with
  \<open>".CFF2"\<close>, that suffix is dropped; otherwise \<open>c\<close> is kept.  The extension is
  stripped from the result of this step, so after it.  Hence
  \<open>split_family_subfamily("Helvetica-Regular.CFF2.otf") = ("Helvetica", "Regular")\<close>.
\<close>

theorem C6_cff2_marker:
  "sanitize_forbidden_characters (basename s) = c \<Longrightarrow>
   (c = a @ py_str ''.CFF2.'' @ b \<and> \<not> py_contains (py_str ''.CFF2.'') (a @ py_str ''.CFF2'') \<longrightarrow>
      normalize_basename s e
        = (if e then splitext_root (a @ py_str ''.'' @ py_replace (py_str ''.CFF2.'') (py_str ''.'') b)
           else a @ py_str ''.'' @ py_replace (py_str ''.CFF2.'') (py_str ''.'') b))
   \<and> (\<not> py_contains (py_str ''.CFF2.'') c \<and> c = a @ py_str ''.CFF2'' \<longrightarrow>
      normalize_basename s e = (if e then splitext_root a else a))
   \<and> (\<not> py_contains (py_str ''.CFF2.'') c \<and> \<not> py_endswith c (py_str ''.CFF2'') \<longrightarrow>
      normalize_basename s e = (if e then splitext_root c else c))
   \<and> split_family_subfamily U (py_str ''Helvetica-Regular.CFF2.otf'') True
        = Some (py_str ''Helvetica'', py_str ''Regular'')"
proof -
  assume c: "sanitize_forbidden_characters (basename s) = c"
  let ?M = "py_str ''.CFF2.''"
  have bl: "butlast ?M = py_str ''.CFF2''" by (simp add: py_str_def)
  have one: "normalize_basename s e
        = (if e then splitext_root (a @ py_str ''.'' @ py_replace ?M (py_str ''.'') b)
           else a @ py_str ''.'' @ py_replace ?M (py_str ''.'') b)"
    if h: "c = a @ ?M @ b" "\<not> py_contains ?M (a @ py_str ''.CFF2'')"
  proof -
    have r: "py_replace ?M (py_str ''.'') c = a @ py_str ''.'' @ py_replace ?M (py_str ''.'') b"
      unfolding h(1) using h(2) by (intro py_replace_first) (simp_all add: bl, simp add: py_str_def)
    have i: "py_contains ?M c"
      unfolding h(1) by (rule py_contains_append) (simp add: py_str_def)
    show ?thesis by (simp add: normalize_basename_def c i r)
  qed
  have two: "normalize_basename s e = (if e then splitext_root a else a)"
    if h: "\<not> py_contains ?M c" "c = a @ py_str ''.CFF2''"
  proof -
    have "py_endswith c (py_str ''.CFF2'')" unfolding h(2) by (simp add: py_endswith_def)
    moreover have "take (length c - 5) c = a" unfolding h(2) by (simp add: py_str_def)
    ultimately show ?thesis using h(1) by (simp add: normalize_basename_def c)
  qed
  have three: "normalize_basename s e = (if e then splitext_root c else c)"
    if h: "\<not> py_contains ?M c" "\<not> py_endswith c (py_str ''.CFF2'')"
    using h by (simp add: normalize_basename_def c)
  show ?thesis using one two three cff2_example by blast
qed

theorem C6_cff2_marker_witness:
  "sanitize_forbidden_characters (basename (py_str ''dir/Arial-Bold.CFF2.ttf''))
     = py_str ''Arial-Bold.CFF2.ttf''
   \<and> py_str ''Arial-Bold.CFF2.ttf'' = py_str ''Arial-Bold'' @ py_str ''.CFF2.'' @ py_str ''ttf''
   \<and> \<not> py_contains (py_str ''.CFF2.'') (py_str ''Arial-Bold'' @ py_str ''.CFF2'')
   \<and> normalize_basename (py_str ''dir/Arial-Bold.CFF2.ttf'') True = py_str ''Arial-Bold''
   \<and> split_family_subfamily ascii_db (py_str ''Helvetica-Regular.CFF2.otf'') True
        = Some (py_str ''Helvetica'', py_str ''Regular'')"
proof -
  have c: "sanitize_forbidden_characters (basename (py_str ''dir/Arial-Bold.CFF2.ttf''))
     = py_str ''Arial-Bold.CFF2.ttf''"
    by code_simp
  have e: "py_str ''Arial-Bold.CFF2.ttf'' = py_str ''Arial-Bold'' @ py_str ''.CFF2.'' @ py_str ''ttf''"
    by (simp add: py_str_def)
  have n: "\<not> py_contains (py_str ''.CFF2.'') (py_str ''Arial-Bold'' @ py_str ''.CFF2'')"
    by code_simp
  have r: "splitext_root (py_str ''Arial-Bold'' @ py_str ''.''
      @ py_replace (py_str ''.CFF2.'') (py_str ''.'') (py_str ''ttf'')) = py_str ''Arial-Bold''"
    by code_simp
  from C6_cff2_marker [OF c, of "py_str ''Arial-Bold''" "py_str ''ttf''" True ascii_db] e n r
  show ?thesis using c by simp
qed

section \<open>Dollar and percent in the spacing rules\<close>

lemma letter_not_numeric:
  assumes "letters_not_digits U" "starts_with_letter U t"
  shows "\<not> is_numeric_token U t"
proof -
  obtain c cs where t: "t = c # cs" and a: "ch_isalpha U c"
    using assms(2) by (cases t) (auto simp: starts_with_letter_def)
  have d: "\<not> ch_isdigit U c" "\<not> re_d U c"
    using a assms(1)
    by (auto simp: ch_isalpha_def ch_isdigit_def re_d_def letters_not_digits_def is_AZ_def
        is_az_def is_09_def split: if_splits)
  have "\<not> py_isdigit U t" using d(1) by (simp add: py_isdigit_def t)
  moreover have "digits_len U t = 0" using d(2) by (simp add: digits_len_def t)
  then have "\<not> re_decimal_whole U t" by (simp add: re_decimal_whole_def)
  ultimately show ?thesis by (simp add: is_numeric_token_def)
qed

lemma money_not_punct:
  "py_str ''$'' \<notin> NO_SPACE" "py_str ''$'' \<notin> TRAILING_SPACE" "py_str ''$'' \<notin> LEADING_SPACE"
  "py_str ''%'' \<notin> NO_SPACE" "py_str ''%'' \<notin> TRAILING_SPACE" "py_str ''%'' \<notin> LEADING_SPACE"
  "py_str ''%'' \<noteq> py_str ''$''"
  by (simp_all add: NO_SPACE_def TRAILING_SPACE_def LEADING_SPACE_def py_str_def)

lemma money_not_punct':
  "py_str ''$'' \<noteq> py_str ''%''" "py_str ''%'' \<noteq> []" "py_str ''$'' \<noteq> []"
  by (simp_all add: py_str_def)

lemma dollar_no_letter: "is_alphanumeric_token U (py_str ''$'') = Some False"
  by (simp add: is_alphanumeric_token_eq starts_with_letter_def py_str_def ch_isalpha_def
      is_AZ_def is_az_def)

lemma number_after_dollar:
  assumes "is_numeric_token U n"
  shows "needs_space_before U (Some (py_str ''$'')) n = Some False"
  unfolding needs_space_before_def
  using assms by (simp add: dollar_no_letter money_not_punct money_not_punct')

lemma needs_space_before_money:
  assumes "tok = py_str ''$'' \<or> tok = py_str ''%''" "prev \<noteq> []"
  shows "needs_space_before U (Some prev) tok
     = Some (\<not> is_numeric_token U prev \<and> starts_with_letter U prev)"
  using assms(1)
proof
  assume "tok = py_str ''$''"
  then show ?thesis
    using assms(2) by (simp add: needs_space_before_def money_not_punct is_alphanumeric_token_eq)
next
  assume "tok = py_str ''%''"
  then show ?thesis
    using assms(2) by (simp add: needs_space_before_def money_not_punct is_alphanumeric_token_eq)
qed

lemma needs_space_after_dollar:
  "needs_space_after U nxt (py_str ''$'') = Some False"
  by (cases nxt) (simp_all add: needs_space_after_def money_not_punct)

lemma needs_space_after_percent:
  "nxt \<noteq> [] \<Longrightarrow> needs_space_after U (Some nxt) (py_str ''%'') = Some (starts_with_letter U nxt)"
  by (simp add: needs_space_after_def money_not_punct is_alphanumeric_token_eq)

lemma needs_space_None:
  "needs_space_before U None tok = Some False" "needs_space_after U None tok = Some False"
  by (simp_all add: needs_space_before_def needs_space_after_def)

lemma spaced_money:
  assumes "[] \<notin> set ts" "i < length ts" "ts ! i = py_str ''$'' \<or> ts ! i = py_str ''%''"
  shows "spaced U ts i =
      (if 0 < i \<and> \<not> is_numeric_token U (ts ! (i - 1)) \<and> starts_with_letter U (ts ! (i - 1))
       then [32] else [])
      @ ts ! i
      @ (if ts ! i = py_str ''%'' \<and> i + 1 < length ts \<and> starts_with_letter U (ts ! (i + 1))
         then [32] else [])"
proof -
  have p: "0 < i \<Longrightarrow> ts ! (i - 1) \<noteq> []"
    using assms(1,2) by (metis less_imp_diff_less nth_mem)
  have n: "i + 1 < length ts \<Longrightarrow> ts ! (i + 1) \<noteq> []"
    using assms(1) by (metis nth_mem)
  have b: "the (needs_space_before U (prev_of ts i) (ts ! i))
      = (0 < i \<and> \<not> is_numeric_token U (ts ! (i - 1)) \<and> starts_with_letter U (ts ! (i - 1)))"
  proof (cases "0 < i")
    case True
    then show ?thesis
      using needs_space_before_money [OF assms(3) p [OF True], of U] by (simp add: prev_of_def)
  next
    case False
    then show ?thesis by (simp add: prev_of_def needs_space_None)
  qed
  have a: "the (needs_space_after U (next_of ts i) (ts ! i))
      = (ts ! i = py_str ''%'' \<and> i + 1 < length ts \<and> starts_with_letter U (ts ! (i + 1)))"
    using assms(3)
  proof
    assume d: "ts ! i = py_str ''$''"
    show ?thesis unfolding d by (simp add: needs_space_after_dollar money_not_punct(7) [symmetric])
  next
    assume d: "ts ! i = py_str ''%''"
    show ?thesis
    proof (cases "i + 1 < length ts")
      case True
      then show ?thesis
        unfolding d using needs_space_after_percent [OF n [OF True], of U]
        by (simp add: next_of_def)
    next
      case False
      then show ?thesis unfolding d by (simp add: next_of_def needs_space_None)
    qed
  qed
  show ?thesis unfolding spaced_def a b by simp
qed

lemma apply_spacing_rules_nth:
  assumes "[] \<notin> set ts"
  shows "\<exists>sp. apply_spacing_rules U ts = Some sp \<and> length sp = length ts
     \<and> (\<forall>i < length ts. sp ! i = spaced U ts i)"
proof -
  have "filter (\<lambda>t. t \<noteq> []) ts = ts" using assms by (induction ts) auto
  then show ?thesis by (simp add: apply_spacing_rules_eq)
qed

lemma money_examples:
  "format_pascal_words U (py_str ''Price$19.99'') = Some (py_str ''Price $19.99'')"
  "format_pascal_words U (py_str ''100%Success'') = Some (py_str ''100% Success'')"
  "format_pascal_words U (py_str ''50%'') = Some (py_str ''50%'')"
  by code_simp+

lemma token_after_dollar:
  "needs_space_before U (Some (py_str ''$'')) n
     = Some (n \<notin> NO_SPACE \<and> n \<notin> TRAILING_SPACE \<and> n \<noteq> py_str ''$'' \<and> n \<noteq> py_str ''%''
             \<and> n \<notin> LEADING_SPACE \<and> \<not> is_numeric_token U n)"
  unfolding needs_space_before_def
  by (simp add: dollar_no_letter money_not_punct money_not_punct')

lemma spaced_after_dollar:
  assumes "[] \<notin> set ts" "i + 1 < length ts" "ts ! i = py_str ''$''"
  shows "\<exists>post. spaced U ts (i + 1) =
      (if ts ! (i + 1) \<notin> NO_SPACE \<and> ts ! (i + 1) \<notin> TRAILING_SPACE
          \<and> ts ! (i + 1) \<noteq> py_str ''$'' \<and> ts ! (i + 1) \<noteq> py_str ''%''
          \<and> ts ! (i + 1) \<notin> LEADING_SPACE \<and> \<not> is_numeric_token U (ts ! (i + 1))
       then py_str '' '' else [])
      @ ts ! (i + 1) @ post"
proof -
  have p: "prev_of ts (i + 1) = Some (py_str ''$'')"
    using assms(3) by (simp add: prev_of_def)
  show ?thesis
    unfolding spaced_def p token_after_dollar by (simp add: py_str_space)
qed

lemma dollar_examples:
  "format_pascal_words U (py_str ''$Price'') = Some (py_str ''$ Price'')"
  "format_pascal_words U (py_str ''$100'') = Some (py_str ''$100'')"
  by code_simp+

text \<open>
  Claim C5, as amended.  The claim as written fails where it says that \<open>"$"\<close> never
  has a space inserted after it: the entry of \<open>"$"\<close> itself never ends with a
  space, but the token after it is spaced by its own rule, which leaves out the space
  only for a numeric token and for the special characters.  So
  \<open>format_pascal_words("$Price")\<close> is \<open>"$ Price"\<close> (the counterexample below).  What
  holds: let \<open>ts\<close> be the tokens given to \<open>apply_spacing_rules\<close> (none empty) and let
  token \<open>i\<close> be \<open>"$"\<close> or \<open>"%"\<close>.  The string the loop emits for it is the token with a
  space before it exactly when a previous token exists, is not numeric and starts with
  a letter (so none after a numeric token, and one after a token that starts with a
  letter, which is never numeric when no letter of the database is a digit), and with a
  space after it exactly when the token is \<open>"%"\<close> and a next token exists and starts
  with a letter.  The entry of \<open>"$"\<close> never ends with a space of its own; the token
  after \<open>"$"\<close> gets a space before it exactly when it is not numeric and is none of
  the special characters of \<open>NO_SPACE\<close>, \<open>TRAILING_SPACE\<close> and \<open>LEADING_SPACE\<close>
  nor \<open>"$"\<close> or \<open>"%"\<close>: no space stands between \<open>"$"\<close> and a number, one stands
  between \<open>"$"\<close> and a word.  Hence
  \<open>format_pascal_words("Price$19.99") = "Price $19.99"\<close>,
  \<open>format_pascal_words("100%Success") = "100% Success"\<close>,
  \<open>format_pascal_words("50%") = "50%"\<close>, \<open>format_pascal_words("$100") = "$100"\<close> and
  \<open>format_pascal_words("$Price") = "$ Price"\<close>.
\<close>

theorem C5_money_percent:
  "(\<forall>ts i. [] \<notin> set ts \<and> i < length ts \<and> (ts ! i = py_str ''$'' \<or> ts ! i = py_str ''%'') \<longrightarrow>
      (\<exists>sp. apply_spacing_rules U ts = Some sp \<and> length sp = length ts
         \<and> sp ! i =
             (if 0 < i \<and> \<not> is_numeric_token U (ts ! (i - 1))
                 \<and> starts_with_letter U (ts ! (i - 1))
              then py_str '' '' else [])
             @ ts ! i
             @ (if ts ! i = py_str ''%'' \<and> i + 1 < length ts
                   \<and> starts_with_letter U (ts ! (i + 1))
                then py_str '' '' else []))
      \<and> (0 < i \<and> letters_not_digits U \<and> starts_with_letter U (ts ! (i - 1)) \<longrightarrow>
           \<not> is_numeric_token U (ts ! (i - 1))))
   \<and> (\<forall>ts i. [] \<notin> set ts \<and> i + 1 < length ts \<and> ts ! i = py_str ''$'' \<longrightarrow>
      (\<exists>sp post. apply_spacing_rules U ts = Some sp \<and> length sp = length ts
         \<and> sp ! (i + 1) =
             (if ts ! (i + 1) \<notin> NO_SPACE \<and> ts ! (i + 1) \<notin> TRAILING_SPACE
                 \<and> ts ! (i + 1) \<noteq> py_str ''$'' \<and> ts ! (i + 1) \<noteq> py_str ''%''
                 \<and> ts ! (i + 1) \<notin> LEADING_SPACE \<and> \<not> is_numeric_token U (ts ! (i + 1))
              then py_str '' '' else [])
             @ ts ! (i + 1) @ post))
   \<and> (is_numeric_token U n \<longrightarrow> needs_space_before U (Some (py_str ''$'')) n = Some False)
   \<and> format_pascal_words U (py_str ''Price$19.99'') = Some (py_str ''Price $19.99'')
   \<and> format_pascal_words U (py_str ''100%Success'') = Some (py_str ''100% Success'')
   \<and> format_pascal_words U (py_str ''50%'') = Some (py_str ''50%'')
   \<and> format_pascal_words U (py_str ''$100'') = Some (py_str ''$100'')
   \<and> format_pascal_words U (py_str ''$Price'') = Some (py_str ''$ Price'')"
proof -
  have "\<exists>sp. apply_spacing_rules U ts = Some sp \<and> length sp = length ts
         \<and> sp ! i =
             (if 0 < i \<and> \<not> is_numeric_token U (ts ! (i - 1))
                 \<and> starts_with_letter U (ts ! (i - 1))
              then py_str '' '' else [])
             @ ts ! i
             @ (if ts ! i = py_str ''%'' \<and> i + 1 < length ts
                   \<and> starts_with_letter U (ts ! (i + 1))
                then py_str '' '' else [])"
    if h: "[] \<notin> set ts" "i < length ts" "ts ! i = py_str ''$'' \<or> ts ! i = py_str ''%''"
    for ts i
  proof -
    obtain sp where sp: "apply_spacing_rules U ts = Some sp" "length sp = length ts"
      "\<forall>i < length ts. sp ! i = spaced U ts i"
      using apply_spacing_rules_nth [OF h(1), of U] by blast
    have "sp ! i = spaced U ts i" using sp(3) h(2) by simp
    then show ?thesis
      using sp(1,2) spaced_money [OF h, of U] by (simp add: py_str_space)
  qed
  moreover have "\<not> is_numeric_token U t" if "letters_not_digits U" "starts_with_letter U t" for t
    using that by (rule letter_not_numeric)
  ultimately have one: "\<forall>ts i. [] \<notin> set ts \<and> i < length ts
      \<and> (ts ! i = py_str ''$'' \<or> ts ! i = py_str ''%'') \<longrightarrow>
      (\<exists>sp. apply_spacing_rules U ts = Some sp \<and> length sp = length ts
         \<and> sp ! i =
             (if 0 < i \<and> \<not> is_numeric_token U (ts ! (i - 1))
                 \<and> starts_with_letter U (ts ! (i - 1))
              then py_str '' '' else [])
             @ ts ! i
             @ (if ts ! i = py_str ''%'' \<and> i + 1 < length ts
                   \<and> starts_with_letter U (ts ! (i + 1))
                then py_str '' '' else []))
      \<and> (0 < i \<and> letters_not_digits U \<and> starts_with_letter U (ts ! (i - 1)) \<longrightarrow>
           \<not> is_numeric_token U (ts ! (i - 1)))"
    by blast
  have "\<exists>sp post. apply_spacing_rules U ts = Some sp \<and> length sp = length ts
         \<and> sp ! (i + 1) =
             (if ts ! (i + 1) \<notin> NO_SPACE \<and> ts ! (i + 1) \<notin> TRAILING_SPACE
                 \<and> ts ! (i + 1) \<noteq> py_str ''$'' \<and> ts ! (i + 1) \<noteq> py_str ''%''
                 \<and> ts ! (i + 1) \<notin> LEADING_SPACE \<and> \<not> is_numeric_token U (ts ! (i + 1))
              then py_str '' '' else [])
             @ ts ! (i + 1) @ post"
    if h: "[] \<notin> set ts" "i + 1 < length ts" "ts ! i = py_str ''$''"
    for ts i
  proof -
    obtain sp where sp: "apply_spacing_rules U ts = Some sp" "length sp = length ts"
      "\<forall>i < length ts. sp ! i = spaced U ts i"
      using apply_spacing_rules_nth [OF h(1), of U] by blast
    have e: "sp ! (i + 1) = spaced U ts (i + 1)" using sp(3) h(2) by blast
    obtain post where "spaced U ts (i + 1) =
             (if ts ! (i + 1) \<notin> NO_SPACE \<and> ts ! (i + 1) \<notin> TRAILING_SPACE
                 \<and> ts ! (i + 1) \<noteq> py_str ''$'' \<and> ts ! (i + 1) \<noteq> py_str ''%''
                 \<and> ts ! (i + 1) \<notin> LEADING_SPACE \<and> \<not> is_numeric_token U (ts ! (i + 1))
              then py_str '' '' else [])
             @ ts ! (i + 1) @ post"
      using spaced_after_dollar [OF h, of U] by blast
    then show ?thesis using sp(1,2) e by metis
  qed
  then have two: "\<forall>ts i. [] \<notin> set ts \<and> i + 1 < length ts \<and> ts ! i = py_str ''$'' \<longrightarrow>
      (\<exists>sp post. apply_spacing_rules U ts = Some sp \<and> length sp = length ts
         \<and> sp ! (i + 1) =
             (if ts ! (i + 1) \<notin> NO_SPACE \<and> ts ! (i + 1) \<notin> TRAILING_SPACE
                 \<and> ts ! (i + 1) \<noteq> py_str ''$'' \<and> ts ! (i + 1) \<noteq> py_str ''%''
                 \<and> ts ! (i + 1) \<notin> LEADING_SPACE \<and> \<not> is_numeric_token U (ts ! (i + 1))
              then py_str '' '' else [])
             @ ts ! (i + 1) @ post)"
    by blast
  have three: "is_numeric_token U n \<longrightarrow>
      needs_space_before U (Some (py_str ''$'')) n = Some False"
    using number_after_dollar by blast
  show ?thesis
    using one two three money_examples dollar_examples by (intro conjI) assumption+
qed

theorem C5_money_percent_witness:
  "[] \<notin> set [py_str ''Price'', py_str ''$'', py_str ''19.99'']
   \<and> (1::nat) < length [py_str ''Price'', py_str ''$'', py_str ''19.99'']
   \<and> [py_str ''Price'', py_str ''$'', py_str ''19.99''] ! 1 = py_str ''$''
   \<and> (\<exists>sp. apply_spacing_rules ascii_db [py_str ''Price'', py_str ''$'', py_str ''19.99'']
              = Some sp
           \<and> length sp = 3 \<and> sp ! 1 = py_str '' $'')
   \<and> letters_not_digits ascii_db
   \<and> starts_with_letter ascii_db (py_str ''Price'')
   \<and> \<not> is_numeric_token ascii_db (py_str ''Price'')
   \<and> [] \<notin> set [py_str ''$'', py_str ''Price'']
   \<and> (0::nat) + 1 < length [py_str ''$'', py_str ''Price'']
   \<and> [py_str ''$'', py_str ''Price''] ! 0 = py_str ''$''
   \<and> (\<exists>sp post. apply_spacing_rules ascii_db [py_str ''$'', py_str ''Price''] = Some sp
           \<and> sp ! 1 = py_str '' '' @ py_str ''Price'' @ post)
   \<and> is_numeric_token ascii_db (py_str ''19.99'')
   \<and> needs_space_before ascii_db (Some (py_str ''$'')) (py_str ''19.99'') = Some False"
proof -
  let ?T = "[py_str ''Price'', py_str ''$'', py_str ''19.99'']"
  let ?D = "[py_str ''$'', py_str ''Price'']"
  have h: "[] \<notin> set ?T \<and> (1::nat) < length ?T \<and> (?T ! 1 = py_str ''$'' \<or> ?T ! 1 = py_str ''%'')"
    by (simp add: py_str_def)
  have l: "letters_not_digits ascii_db"
    by (simp add: letters_not_digits_def ascii_db_def)
  have a: "starts_with_letter ascii_db (py_str ''Price'')"
    by code_simp
  have n: "\<not> is_numeric_token ascii_db (py_str ''Price'')"
    by code_simp
  have v: "(if 0 < (1::nat) \<and> \<not> is_numeric_token ascii_db (?T ! (1 - 1))
                 \<and> starts_with_letter ascii_db (?T ! (1 - 1))
              then py_str '' '' else [])
             @ ?T ! 1
             @ (if ?T ! 1 = py_str ''%'' \<and> 1 + 1 < length ?T
                   \<and> starts_with_letter ascii_db (?T ! (1 + 1))
                then py_str '' '' else []) = py_str '' $''"
    using a n by (simp add: py_str_def)
  note c = C5_money_percent [of ascii_db "py_str ''19.99''"]
  from c h
  obtain sp where "apply_spacing_rules ascii_db ?T = Some sp" "length sp = length ?T"
    "sp ! 1 = (if 0 < (1::nat) \<and> \<not> is_numeric_token ascii_db (?T ! (1 - 1))
                 \<and> starts_with_letter ascii_db (?T ! (1 - 1))
              then py_str '' '' else [])
             @ ?T ! 1
             @ (if ?T ! 1 = py_str ''%'' \<and> 1 + 1 < length ?T
                   \<and> starts_with_letter ascii_db (?T ! (1 + 1))
                then py_str '' '' else [])"
    by blast
  then have first: "\<exists>sp. apply_spacing_rules ascii_db ?T = Some sp \<and> length sp = 3
      \<and> sp ! 1 = py_str '' $''"
    using v by simp
  have h2: "[] \<notin> set ?D \<and> (0::nat) + 1 < length ?D \<and> ?D ! 0 = py_str ''$''"
    by (simp add: py_str_def)
  have w: "?D ! (0 + 1) \<notin> NO_SPACE \<and> ?D ! (0 + 1) \<notin> TRAILING_SPACE
      \<and> ?D ! (0 + 1) \<noteq> py_str ''$'' \<and> ?D ! (0 + 1) \<noteq> py_str ''%''
      \<and> ?D ! (0 + 1) \<notin> LEADING_SPACE \<and> \<not> is_numeric_token ascii_db (?D ! (0 + 1))"
    using n by (simp add: NO_SPACE_def TRAILING_SPACE_def LEADING_SPACE_def py_str_def)
  from c h2
  obtain sp2 post where "apply_spacing_rules ascii_db ?D = Some sp2"
    "sp2 ! (0 + 1) =
             (if ?D ! (0 + 1) \<notin> NO_SPACE \<and> ?D ! (0 + 1) \<notin> TRAILING_SPACE
                 \<and> ?D ! (0 + 1) \<noteq> py_str ''$'' \<and> ?D ! (0 + 1) \<noteq> py_str ''%''
                 \<and> ?D ! (0 + 1) \<notin> LEADING_SPACE \<and> \<not> is_numeric_token ascii_db (?D ! (0 + 1))
              then py_str '' '' else [])
             @ ?D ! (0 + 1) @ post"
    by blast
  then have second: "\<exists>sp post. apply_spacing_rules ascii_db ?D = Some sp
      \<and> sp ! 1 = py_str '' '' @ py_str ''Price'' @ post"
    using w by auto
  have m: "is_numeric_token ascii_db (py_str ''19.99'')"
    by code_simp
  from c m have third:
    "needs_space_before ascii_db (Some (py_str ''$'')) (py_str ''19.99'') = Some False"
    by blast
  show ?thesis using h l a n first h2 second m third by simp
qed

theorem C5_counterexample:
  "tokenize_pascal_case ascii_db (py_str ''$Price'') = [py_str ''$'', py_str ''Price'']
   \<and> apply_spacing_rules ascii_db [py_str ''$'', py_str ''Price'']
       = Some [py_str ''$'', py_str '' Price'']
   \<and> format_pascal_words ascii_db (py_str ''$Price'') = Some (py_str ''$ Price'')"
  by code_simp

section \<open>Runs of capitals\<close>

lemma AZ_not_other: "is_AZ c \<Longrightarrow> \<not> is_az c \<and> \<not> re_d U c \<and> c \<noteq> 46"
  by (auto simp: is_AZ_def is_az_def re_d_def is_09_def)

lemma az_not_AZ: "is_az c \<Longrightarrow> \<not> is_AZ c"
  by (auto simp: is_AZ_def is_az_def)

lemma backtrack_down_None: "(\<And>n. 0 < n \<Longrightarrow> n \<le> m \<Longrightarrow> \<not> ok n) \<Longrightarrow> backtrack_down ok m = None"
  by (induction m) auto

lemma backtrack_down_Some: "0 < n \<Longrightarrow> ok n \<Longrightarrow> backtrack_down ok n = Some n"
  by (cases n) auto

lemma takeWhile_run:
  "list_all P R \<Longrightarrow> (rest = [] \<or> \<not> P (hd rest)) \<Longrightarrow> takeWhile P (R @ rest) = R"
  by (cases rest) (auto simp: list_all_iff takeWhile_append2 intro: takeWhile_eq_all_conv [THEN iffD2])

lemma acronym_match:
  assumes "R \<noteq> []" "list_all is_AZ R" "is_AZ u" "is_az l"
  shows "ACRONYM_BEFORE_CAMEL (R @ u # l # rest) = Some (length R)"
proof -
  let ?xs = "R @ u # l # rest"
  have "list_all is_AZ (R @ [u])" using assms(2,3) by simp
  moreover have "\<not> is_AZ (hd (l # rest))" using assms(4) by (simp add: az_not_AZ)
  ultimately have "takeWhile is_AZ ((R @ [u]) @ l # rest) = R @ [u]"
    by (intro takeWhile_run) auto
  then have m: "length (takeWhile is_AZ ?xs) = Suc (length R)" by simp
  have no: "\<not> acronym_lookahead ?xs (Suc (length R))"
    using assms(4) by (simp add: acronym_lookahead_def nth_append az_not_AZ)
  have yes: "acronym_lookahead ?xs (length R)"
    using assms(3,4) by (simp add: acronym_lookahead_def nth_append)
  show ?thesis
    unfolding ACRONYM_BEFORE_CAMEL_def m using no yes assms(1)
    by (simp add: backtrack_down_Some)
qed

lemma all_caps_match:
  assumes "2 \<le> length R" "list_all is_AZ R" "rest = [] \<or> (\<not> is_AZ (hd rest) \<and> \<not> is_az (hd rest))"
  shows "TOKEN_PATTERN U prev (R @ rest) = Some (length R)"
proof -
  let ?xs = "R @ rest"
  obtain a b R' where R: "R = a # b # R'"
    using assms(1) by (cases R; cases "tl R") auto
  have ab: "is_AZ a" "is_AZ b" using assms(2) by (simp_all add: R)
  have tw: "takeWhile is_AZ ?xs = R"
    using assms(2,3) by (intro takeWhile_run) auto
  have look: "\<not> acronym_lookahead ?xs n" if "0 < n" "n \<le> length R" for n
  proof (cases "n + 1 < length R")
    case True
    then have "?xs ! (n + 1) = R ! (n + 1)" by (simp add: nth_append)
    moreover have "is_AZ (R ! (n + 1))" using assms(2) True by (simp add: list_all_length)
    ultimately show ?thesis by (simp add: acronym_lookahead_def az_not_AZ AZ_not_other)
  next
    case False
    show ?thesis
    proof (cases "n = length R")
      case True
      show ?thesis
      proof (cases rest)
        case Nil
        then show ?thesis using True by (simp add: acronym_lookahead_def)
      next
        case (Cons r rs)
        then have "?xs ! n = r" using True by (simp add: nth_append)
        moreover have "\<not> is_AZ r" using assms(3) Cons by simp
        ultimately show ?thesis by (simp add: acronym_lookahead_def)
      qed
    next
      case False
      with \<open>\<not> n + 1 < length R\<close> that have n: "n + 1 = length R" by simp
      show ?thesis
      proof (cases rest)
        case Nil
        then show ?thesis using n by (simp add: acronym_lookahead_def)
      next
        case (Cons r rs)
        then have "?xs ! (n + 1) = r" using n by (simp add: nth_append)
        moreover have "\<not> is_az r" using assms(3) Cons by simp
        ultimately show ?thesis by (simp add: acronym_lookahead_def)
      qed
    qed
  qed
  have 1: "ACRONYM_BEFORE_CAMEL ?xs = None"
    unfolding ACRONYM_BEFORE_CAMEL_def tw using look by (rule backtrack_down_None)
  have d0: "digits_len U (b # R' @ rest) = 0" "digits_len U ?xs = 0"
    using ab AZ_not_other [of a U] AZ_not_other [of b U] by (simp_all add: digits_len_def R)
  have 2: "SINGLE_CAP_NUMBER U prev ?xs = None"
    using d0 by (simp add: SINGLE_CAP_NUMBER_def R)
  have 3: "DECIMAL_NUMBER U ?xs = None"
    using d0 by (simp add: DECIMAL_NUMBER_def)
  have 4: "CAPITALIZED_WORD U ?xs = None"
    using ab AZ_not_other [of a U] AZ_not_other [of b U] by (simp add: CAPITALIZED_WORD_def R)
  have 5: "ALL_CAPS_SEQUENCE ?xs = Some (length R)"
    using assms(1) by (simp add: ALL_CAPS_SEQUENCE_def tw)
  show ?thesis by (simp add: TOKEN_PATTERN_def 1 2 3 4 5)
qed

lemma finditer_from_match:
  assumes "pos < length s" "match_at U s pos = Some n"
  shows "finditer_from U s pos = (pos, pos + n) # finditer_from U s (pos + n)"
  using assms by (subst finditer_from.simps) simp

lemma fold_tokenize_step_first:
  "fst (fold (tokenize_step v) ms (t # toks, p)) = t # tl (fst (fold (tokenize_step v) ms (t # toks, p)))
   \<and> hd (fst (fold (tokenize_step v) ms (t # toks, p))) = t"
proof (induction ms arbitrary: toks p)
  case Nil
  show ?case by simp
next
  case (Cons m ms)
  obtain st en where m: "m = (st, en)" by (cases m)
  let ?toks' = "(if st > p then toks @ [py_slice v p st] else toks) @ [py_slice v st en]"
  have s: "tokenize_step v m (t # toks, p) = (t # ?toks', en)"
    by (simp add: tokenize_step_def m)
  show ?case using Cons.IH [of ?toks' en] by (simp add: s)
qed

lemma tokenize_first_match:
  assumes "match_at U s 0 = Some n"
  shows "hd (tokenize_pascal_case U s) = take n s"
proof -
  have b: "0 < n" "n \<le> length s" using match_at_bounds [OF assms] by auto
  then have ne: "s \<noteq> []" by auto
  have f: "finditer U s = (0, n) # finditer_from U s n"
    unfolding finditer_def using finditer_from_match [of 0 s U n] assms ne by simp
  have st: "tokenize_step s (0, n) ([], 0) = ([take n s], n)"
    by (simp add: tokenize_step_def py_slice_def)
  obtain toks p where fo: "fold (tokenize_step s) (finditer_from U s n) ([take n s], n) = (toks, p)"
    by (cases "fold (tokenize_step s) (finditer_from U s n) ([take n s], n)")
  have "toks = take n s # tl toks \<and> hd toks = take n s"
    using fold_tokenize_step_first [of s "finditer_from U s n" "take n s" "[]" n]
    unfolding fo by simp
  then have h: "hd toks = take n s" "toks \<noteq> []"
    by (simp, metis list.discI)
  show ?thesis
    using ne h by (auto simp: tokenize_pascal_case_def f st fo)
qed

lemma takeWhile_holds: "k < length (takeWhile P xs) \<Longrightarrow> P (xs ! k)"
proof -
  assume k: "k < length (takeWhile P xs)"
  then have "takeWhile P xs ! k \<in> set (takeWhile P xs)" by (rule nth_mem)
  then have "P (takeWhile P xs ! k)" by (rule set_takeWhileD [THEN conjunct2])
  then show ?thesis using k by (simp add: takeWhile_nth)
qed

lemma digits_not_AZ: "k < digits_len U xs \<Longrightarrow> \<not> is_AZ (xs ! k)"
  using takeWhile_holds [of k "re_d U" xs] AZ_not_other [of "xs ! k" U]
  by (auto simp: digits_len_def)

lemma dot_groups_not_AZ: "k < dot_groups_len U xs \<Longrightarrow> \<not> is_AZ (xs ! k)"
proof (induction U xs arbitrary: k rule: dot_groups_len.induct)
  case (1 U)
  then show ?case by simp
next
  case (2 U c cs)
  let ?d = "digits_len U cs"
  from 2(2) have g: "c = 46 \<and> 0 < ?d"
    by (auto split: if_splits)
  then have k: "k < 1 + ?d + dot_groups_len U (drop ?d cs)" using 2(2) by simp
  have dl: "?d \<le> length cs" by (rule digits_len_le)
  show ?case
  proof (cases k)
    case 0
    then show ?thesis using g by (auto simp: is_AZ_def)
  next
    case (Suc j)
    show ?thesis
    proof (cases "j < ?d")
      case True
      then show ?thesis using digits_not_AZ [of j U cs] Suc by simp
    next
      case False
      then have "j - ?d < dot_groups_len U (drop ?d cs)" using k Suc by simp
      then have "\<not> is_AZ (drop ?d cs ! (j - ?d))" using 2(1) g by simp
      moreover have "drop ?d cs ! (j - ?d) = cs ! j" using False dl by simp
      ultimately show ?thesis using Suc by simp
    qed
  qed
qed

lemma digits_groups_not_AZ:
  assumes "k < digits_len U xs + dot_groups_len U (drop (digits_len U xs) xs)"
  shows "\<not> is_AZ (xs ! k)"
proof (cases "k < digits_len U xs")
  case True
  then show ?thesis by (rule digits_not_AZ)
next
  case False
  let ?d = "digits_len U xs"
  have "k - ?d < dot_groups_len U (drop ?d xs)" using assms False by simp
  then have "\<not> is_AZ (drop ?d xs ! (k - ?d))" by (rule dot_groups_not_AZ)
  moreover have "drop ?d xs ! (k - ?d) = xs ! k"
    using False digits_len_le [of U xs] by simp
  ultimately show ?thesis by simp
qed

lemma lazy_lower_az: "lazy_lower U xs = Some n \<Longrightarrow> k < n \<Longrightarrow> is_az (xs ! k)"
proof (induction xs arbitrary: n k)
  case Nil
  then show ?case by simp
next
  case (Cons c cs)
  from Cons.prems(1) have c: "is_az c" by (auto split: if_splits)
  show ?case
  proof (cases k)
    case 0
    then show ?thesis using c by simp
  next
    case (Suc j)
    from Cons.prems(1) c Suc Cons.prems(2) obtain m where "lazy_lower U cs = Some m" "n = Suc m"
      by (auto split: if_splits)
    then show ?thesis using Cons.IH [of m j] Suc Cons.prems(2) by simp
  qed
qed

lemma SINGLE_CAP_NUMBER_Some:
  assumes "SINGLE_CAP_NUMBER U prev xs = Some n"
  shows "\<exists>c cs. xs = c # cs \<and> n = 1 + digits_len U cs + dot_groups_len U (drop (digits_len U cs) cs)"
proof (cases xs)
  case Nil
  then show ?thesis using assms by (simp add: SINGLE_CAP_NUMBER_def)
next
  case (Cons c cs)
  then show ?thesis
    using assms
    by (cases "not_after_AZ prev \<and> is_AZ c \<and> 0 < digits_len U cs")
      (simp_all add: SINGLE_CAP_NUMBER_def)
qed

lemma CAPITALIZED_WORD_Some:
  assumes "CAPITALIZED_WORD U xs = Some n"
  shows "(\<exists>c cs m. xs = c # cs \<and> lazy_lower U cs = Some m \<and> n = Suc m) \<or> lazy_lower U xs = Some n"
proof (cases xs)
  case Nil
  then show ?thesis using assms by (simp add: CAPITALIZED_WORD_def)
next
  case (Cons c cs)
  show ?thesis
  proof (cases "is_AZ c")
    case True
    show ?thesis
    proof (cases "lazy_lower U cs")
      case None
      then show ?thesis using assms True by (simp add: CAPITALIZED_WORD_def Cons)
    next
      case (Some m)
      then show ?thesis using assms True by (simp add: CAPITALIZED_WORD_def Cons)
    qed
  next
    case False
    then show ?thesis using assms by (simp add: CAPITALIZED_WORD_def Cons)
  qed
qed

text \<open>Inside a match, a capital that is not the first character follows a capital.\<close>

lemma match_capital_inside:
  assumes "TOKEN_PATTERN U prev xs = Some n" "0 < j" "j < n" "is_AZ (xs ! j)"
  shows "is_AZ (xs ! (j - 1))"
proof -
  have "Some n \<in> set [ACRONYM_BEFORE_CAMEL xs, SINGLE_CAP_NUMBER U prev xs,
      DECIMAL_NUMBER U xs, CAPITALIZED_WORD U xs, ALL_CAPS_SEQUENCE xs,
      SINGLE_UPPERCASE xs, DIGITS U xs, SPECIAL_CHARACTER xs]"
    using assms(1) unfolding TOKEN_PATTERN_def by (rule first_match_member)
  then consider (a) "ACRONYM_BEFORE_CAMEL xs = Some n" | (b) "SINGLE_CAP_NUMBER U prev xs = Some n"
    | (c) "DECIMAL_NUMBER U xs = Some n" | (d) "CAPITALIZED_WORD U xs = Some n"
    | (e) "ALL_CAPS_SEQUENCE xs = Some n" | (f) "SINGLE_UPPERCASE xs = Some n"
    | (g) "DIGITS U xs = Some n" | (h) "SPECIAL_CHARACTER xs = Some n"
    by auto
  then show ?thesis
  proof cases
    case a
    then have "n \<le> length (takeWhile is_AZ xs)"
      using backtrack_down_bounds [of "acronym_lookahead xs" "length (takeWhile is_AZ xs)" n]
      by (simp add: ACRONYM_BEFORE_CAMEL_def)
    then show ?thesis using takeWhile_holds [of "j - 1" is_AZ xs] assms(2,3) by simp
  next
    case b
    then obtain c cs where xs: "xs = c # cs"
      and n: "n = 1 + digits_len U cs + dot_groups_len U (drop (digits_len U cs) cs)"
      using SINGLE_CAP_NUMBER_Some by blast
    have "\<not> is_AZ (cs ! (j - 1))"
      using assms(2,3) n digits_groups_not_AZ [of "j - 1" U cs] by simp
    then show ?thesis using assms(2,4) by (simp add: xs nth_Cons')
  next
    case c
    then have "n = digits_len U xs + dot_groups_len U (drop (digits_len U xs) xs)"
      by (cases "0 < digits_len U xs \<and> 0 < dot_groups_len U (drop (digits_len U xs) xs)")
        (simp_all add: DECIMAL_NUMBER_def Let_def)
    then show ?thesis using digits_groups_not_AZ [of j U xs] assms(3,4) by simp
  next
    case d
    from CAPITALIZED_WORD_Some [OF d]
    consider (cap) c cs m where "xs = c # cs" "lazy_lower U cs = Some m" "n = Suc m"
      | (nocap) "lazy_lower U xs = Some n"
      by blast
    then show ?thesis
    proof cases
      case cap
      then have "is_az (cs ! (j - 1))" using lazy_lower_az [of U cs m "j - 1"] assms(2,3) by simp
      then show ?thesis using assms(2,4) az_not_AZ cap(1) by (simp add: nth_Cons')
    next
      case nocap
      then show ?thesis using lazy_lower_az [of U xs n j] assms(3,4) az_not_AZ by blast
    qed
  next
    case e
    then have "n = length (takeWhile is_AZ xs)"
      by (auto simp: ALL_CAPS_SEQUENCE_def Let_def split: if_splits)
    then show ?thesis using takeWhile_holds [of "j - 1" is_AZ xs] assms(2,3) by simp
  next
    case f
    then have "n = 1" by (auto simp: SINGLE_UPPERCASE_def split: list.splits if_splits)
    then show ?thesis using assms(2,3) by simp
  next
    case g
    then have "n = digits_len U xs" by (auto simp: DIGITS_def Let_def split: if_splits)
    then show ?thesis using digits_not_AZ [of j U xs] assms(3,4) by simp
  next
    case h
    then have "n = 1" by (auto simp: SPECIAL_CHARACTER_def split: list.splits if_splits)
    then show ?thesis using assms(2,3) by simp
  qed
qed

text \<open>So the search always arrives at the start of a run of capitals.\<close>

lemma finditer_from_reaches:
  "q \<le> p \<Longrightarrow> p < length s \<Longrightarrow> is_AZ (s ! p) \<Longrightarrow> p = 0 \<or> \<not> is_AZ (s ! (p - 1)) \<Longrightarrow>
   set (finditer_from U s p) \<subseteq> set (finditer_from U s q)"
proof (induction U s q rule: finditer_from.induct)
  case (1 U s q)
  show ?case
  proof (cases "q = p")
    case True
    then show ?thesis by simp
  next
    case False
    with 1(3) have q: "q < p" by simp
    then have ql: "\<not> length s \<le> q" using 1(4) by simp
    show ?thesis
    proof (cases "match_at U s q")
      case None
      have "set (finditer_from U s p) \<subseteq> set (finditer_from U s (Suc q))"
        using 1(1) [OF ql None] q 1(4,5,6) by simp
      then show ?thesis using ql None by (subst finditer_from.simps [of U s q]) simp
    next
      case (Some n)
      have "q + n \<le> p"
      proof (rule ccontr)
        assume "\<not> q + n \<le> p"
        then have j: "0 < p - q" "p - q < n" using q by auto
        have tp: "TOKEN_PATTERN U (if q = 0 then None else Some (s ! (q - 1))) (drop q s) = Some n"
          using Some by (simp add: match_at_def)
        have a: "drop q s ! (p - q) = s ! p" using q 1(4) by simp
        have b: "drop q s ! (p - q - 1) = s ! (p - 1)" using q 1(4) by simp
        have "is_AZ (drop q s ! (p - q))" using 1(5) a by simp
        then have "is_AZ (drop q s ! (p - q - 1))"
          by (rule match_capital_inside [OF tp j])
        then show False using 1(6) q b by auto
      qed
      then have "set (finditer_from U s p) \<subseteq> set (finditer_from U s (q + n))"
        using 1(2) [OF ql Some] 1(4,5,6) by simp
      then show ?thesis using ql Some by (subst finditer_from.simps [of U s q]) auto
    qed
  qed
qed

lemma run_start_match:
  assumes "p < length s" "is_AZ (s ! p)" "p = 0 \<or> \<not> is_AZ (s ! (p - 1))"
    "match_at U s p = Some n"
  shows "(p, p + n) \<in> set (finditer U s)"
proof -
  have "(p, p + n) \<in> set (finditer_from U s p)"
    using finditer_from_match [OF assms(1,4)] by simp
  then show ?thesis
    using finditer_from_reaches [of 0 p s U] assms(1,2,3) by (auto simp: finditer_def)
qed

lemma fold_tokenize_step_keeps:
  "set toks \<subseteq> set (fst (fold (tokenize_step v) ms (toks, p)))"
proof (induction ms arbitrary: toks p)
  case Nil
  show ?case by simp
next
  case (Cons m ms)
  obtain toks' p' where s: "tokenize_step v m (toks, p) = (toks', p')"
    by (cases "tokenize_step v m (toks, p)")
  have "set toks \<subseteq> set toks'"
    using s by (cases m) (auto simp: tokenize_step_def split: if_splits)
  moreover have "set toks' \<subseteq> set (fst (fold (tokenize_step v) ms (toks', p')))"
    by (rule Cons.IH)
  ultimately have "set toks \<subseteq> set (fst (fold (tokenize_step v) ms (toks', p')))"
    by (rule order_trans)
  then show ?case by (simp add: s)
qed

lemma fold_tokenize_step_match:
  "(st, en) \<in> set ms \<Longrightarrow> py_slice v st en \<in> set (fst (fold (tokenize_step v) ms (toks, p)))"
proof (induction ms arbitrary: toks p)
  case Nil
  then show ?case by simp
next
  case (Cons m ms)
  obtain toks' p' where s: "tokenize_step v m (toks, p) = (toks', p')"
    by (cases "tokenize_step v m (toks, p)")
  show ?case
  proof (cases "(st, en) = m")
    case True
    then have "py_slice v st en \<in> set toks'"
      using s by (auto simp: tokenize_step_def split: if_splits)
    moreover have "set toks' \<subseteq> set (fst (fold (tokenize_step v) ms (toks', p')))"
      by (rule fold_tokenize_step_keeps)
    ultimately have "py_slice v st en \<in> set (fst (fold (tokenize_step v) ms (toks', p')))"
      by (rule subsetD [rotated])
    then show ?thesis by (simp add: s)
  next
    case False
    then have "(st, en) \<in> set ms" using Cons.prems by auto
    then have "py_slice v st en \<in> set (fst (fold (tokenize_step v) ms (toks', p')))"
      by (rule Cons.IH)
    then show ?thesis by (simp add: s)
  qed
qed

lemma match_is_token:
  assumes "(st, en) \<in> set (finditer U s)"
  shows "py_slice s st en \<in> set (tokenize_pascal_case U s)"
proof -
  have ne: "s \<noteq> []"
    using assms by (auto simp: finditer_def finditer_from.simps [of U "[]" 0])
  obtain toks p where f: "fold (tokenize_step s) (finditer U s) ([], 0) = (toks, p)"
    by (cases "fold (tokenize_step s) (finditer U s) ([], 0)")
  have "py_slice s st en \<in> set toks"
    using fold_tokenize_step_match [OF assms, of s "[]" 0] by (simp add: f)
  then show ?thesis using ne by (simp add: tokenize_pascal_case_def f)
qed

lemma first_match_Some: "Some n \<in> set ms \<Longrightarrow> \<exists>k. first_match ms = Some k"
  by (induction ms rule: first_match.induct) auto

lemma capital_matches: "is_AZ c \<Longrightarrow> \<exists>k. TOKEN_PATTERN U prev (c # cs) = Some k"
  unfolding TOKEN_PATTERN_def
  by (rule first_match_Some [of 1]) (simp add: SINGLE_UPPERCASE_def)

lemma acronym_in_context:
  assumes "R \<noteq> []" "list_all is_AZ R" "is_AZ u" "is_az l" "pre = [] \<or> \<not> is_AZ (last pre)"
  shows "match_at U (pre @ R @ u # l # rest) (length pre) = Some (length R)
     \<and> (length pre, length pre + length R) \<in> set (finditer U (pre @ R @ u # l # rest))
     \<and> R \<in> set (tokenize_pascal_case U (pre @ R @ u # l # rest))
     \<and> (\<exists>n. (length pre + length R, length pre + length R + n)
            \<in> set (finditer U (pre @ R @ u # l # rest)))"
proof -
  let ?s = "pre @ R @ u # l # rest"
  let ?p = "length pre"
  let ?e = "length pre + length R"
  have m: "match_at U ?s ?p = Some (length R)"
    using acronym_match [OF assms(1-4), of rest]
    by (simp add: match_at_def TOKEN_PATTERN_def)
  have pl: "?p < length ?s" using assms(1) by simp
  have hd: "?s ! ?p = hd R" using assms(1) by (cases R) (simp_all add: nth_append)
  have az: "is_AZ (?s ! ?p)" using assms(1,2) unfolding hd by (cases R) simp_all
  have before: "?p = 0 \<or> \<not> is_AZ (?s ! (?p - 1))"
  proof (cases "pre = []")
    case True
    then show ?thesis by simp
  next
    case False
    then have "?s ! (?p - 1) = last pre" by (simp add: nth_append last_conv_nth)
    then show ?thesis using assms(5) False by simp
  qed
  have f: "(?p, ?e) \<in> set (finditer U ?s)"
    using run_start_match [OF pl az before m] .
  have "py_slice ?s ?p ?e = R" by (simp add: py_slice_def)
  then have t: "R \<in> set (tokenize_pascal_case U ?s)"
    using match_is_token [OF f] by simp
  have el: "?e < length ?s" by simp
  have de: "drop ?e ?s = u # l # rest" by simp
  obtain n where n: "match_at U ?s ?e = Some n"
    using capital_matches [OF assms(3)] unfolding match_at_def de by blast
  have "finditer_from U ?s ?p = (?p, ?e) # finditer_from U ?s ?e"
    using finditer_from_match [OF pl m] .
  moreover have "finditer_from U ?s ?e = (?e, ?e + n) # finditer_from U ?s (?e + n)"
    using finditer_from_match [OF el n] .
  ultimately have "(?e, ?e + n) \<in> set (finditer_from U ?s ?p)" by simp
  then have "(?e, ?e + n) \<in> set (finditer U ?s)"
    using finditer_from_reaches [of 0 ?p ?s U] pl az before by (auto simp: finditer_def)
  then show ?thesis using m f t by blast
qed

lemma all_caps_in_context:
  assumes "2 \<le> length R" "list_all is_AZ R"
    "rest = [] \<or> (\<not> is_AZ (hd rest) \<and> \<not> is_az (hd rest))"
    "pre = [] \<or> \<not> is_AZ (last pre)"
  shows "match_at U (pre @ R @ rest) (length pre) = Some (length R)
     \<and> (length pre, length pre + length R) \<in> set (finditer U (pre @ R @ rest))
     \<and> R \<in> set (tokenize_pascal_case U (pre @ R @ rest))"
proof -
  let ?s = "pre @ R @ rest"
  let ?p = "length pre"
  let ?e = "length pre + length R"
  have ne: "R \<noteq> []" using assms(1) by auto
  have m: "match_at U ?s ?p = Some (length R)"
    using all_caps_match [OF assms(1-3)] by (simp add: match_at_def)
  have pl: "?p < length ?s" using ne by simp
  have hd: "?s ! ?p = hd R" using ne by (cases R) (simp_all add: nth_append)
  have az: "is_AZ (?s ! ?p)" using ne assms(2) unfolding hd by (cases R) simp_all
  have before: "?p = 0 \<or> \<not> is_AZ (?s ! (?p - 1))"
  proof (cases "pre = []")
    case True
    then show ?thesis by simp
  next
    case False
    then have "?s ! (?p - 1) = last pre" by (simp add: nth_append last_conv_nth)
    then show ?thesis using assms(4) False by simp
  qed
  have f: "(?p, ?e) \<in> set (finditer U ?s)"
    using run_start_match [OF pl az before m] .
  have "py_slice ?s ?p ?e = R" by (simp add: py_slice_def)
  then have t: "R \<in> set (tokenize_pascal_case U ?s)"
    using match_is_token [OF f] by simp
  show ?thesis using m f t by blast
qed

lemma acronym_examples:
  "family_from_filename U (py_str ''KWAKGrotesk-ExtraBold'') True = Some (py_str ''KWAK Grotesk'')"
  "format_pascal_words U (py_str ''UIUXKit'') = Some (py_str ''UIUX Kit'')"
  "format_pascal_words U (py_str ''ABCD'') = Some (py_str ''ABCD'')"
  by code_simp+

text \<open>
  Claim C2.  Wherever the input holds a run \<open>R\<close> of capitals that starts a run (the
  input begins there, or the character before is no capital) and is followed by a
  capital and a lowercase letter, the pattern matches exactly \<open>R\<close> there, the search
  arrives there, and \<open>R\<close> is a token; the next match begins right after \<open>R\<close>, so the
  capital and the word it begins are not consumed.  Wherever the input holds a run of
  two or more capitals that starts a run and is followed by the end of the input or by
  a character that is neither a capital nor a lowercase letter, the whole run is one
  token.  Hence \<open>family_from_filename("KWAKGrotesk-ExtraBold") = "KWAK Grotesk"\<close>,
  \<open>format_pascal_words("UIUXKit") = "UIUX Kit"\<close> and
  \<open>format_pascal_words("ABCD") = "ABCD"\<close>.
\<close>

theorem C2_acronym_runs:
  "(\<forall>pre R u l rest.
      R \<noteq> [] \<and> list_all is_AZ R \<and> is_AZ u \<and> is_az l \<and> (pre = [] \<or> \<not> is_AZ (last pre)) \<longrightarrow>
        match_at U (pre @ R @ u # l # rest) (length pre) = Some (length R)
        \<and> (length pre, length pre + length R) \<in> set (finditer U (pre @ R @ u # l # rest))
        \<and> R \<in> set (tokenize_pascal_case U (pre @ R @ u # l # rest))
        \<and> (\<exists>n. (length pre + length R, length pre + length R + n)
               \<in> set (finditer U (pre @ R @ u # l # rest))))
   \<and> (\<forall>pre R rest.
      2 \<le> length R \<and> list_all is_AZ R
      \<and> (rest = [] \<or> (\<not> is_AZ (hd rest) \<and> \<not> is_az (hd rest)))
      \<and> (pre = [] \<or> \<not> is_AZ (last pre)) \<longrightarrow>
        match_at U (pre @ R @ rest) (length pre) = Some (length R)
        \<and> (length pre, length pre + length R) \<in> set (finditer U (pre @ R @ rest))
        \<and> R \<in> set (tokenize_pascal_case U (pre @ R @ rest)))
   \<and> family_from_filename U (py_str ''KWAKGrotesk-ExtraBold'') True = Some (py_str ''KWAK Grotesk'')
   \<and> format_pascal_words U (py_str ''UIUXKit'') = Some (py_str ''UIUX Kit'')
   \<and> format_pascal_words U (py_str ''ABCD'') = Some (py_str ''ABCD'')"
proof -
  have a: "\<forall>pre R u l rest.
      R \<noteq> [] \<and> list_all is_AZ R \<and> is_AZ u \<and> is_az l \<and> (pre = [] \<or> \<not> is_AZ (last pre)) \<longrightarrow>
        match_at U (pre @ R @ u # l # rest) (length pre) = Some (length R)
        \<and> (length pre, length pre + length R) \<in> set (finditer U (pre @ R @ u # l # rest))
        \<and> R \<in> set (tokenize_pascal_case U (pre @ R @ u # l # rest))
        \<and> (\<exists>n. (length pre + length R, length pre + length R + n)
               \<in> set (finditer U (pre @ R @ u # l # rest)))"
    by (intro allI impI) (elim conjE, rule acronym_in_context, assumption+)
  have b: "\<forall>pre R rest.
      2 \<le> length R \<and> list_all is_AZ R
      \<and> (rest = [] \<or> (\<not> is_AZ (hd rest) \<and> \<not> is_az (hd rest)))
      \<and> (pre = [] \<or> \<not> is_AZ (last pre)) \<longrightarrow>
        match_at U (pre @ R @ rest) (length pre) = Some (length R)
        \<and> (length pre, length pre + length R) \<in> set (finditer U (pre @ R @ rest))
        \<and> R \<in> set (tokenize_pascal_case U (pre @ R @ rest))"
    by (intro allI impI) (elim conjE, rule all_caps_in_context, assumption+)
  show ?thesis
    using a b acronym_examples [of U] by (intro conjI) assumption+
qed

theorem C2_acronym_runs_witness:
  "py_str ''XML'' \<noteq> [] \<and> list_all is_AZ (py_str ''XML'') \<and> is_AZ 72 \<and> is_az 116
   \<and> \<not> is_AZ (last (py_str ''my''))
   \<and> py_str ''my'' @ py_str ''XML'' @ 72 # 116 # py_str ''tp'' = py_str ''myXMLHttp''
   \<and> match_at ascii_db (py_str ''my'' @ py_str ''XML'' @ 72 # 116 # py_str ''tp'')
         (length (py_str ''my'')) = Some (length (py_str ''XML''))
   \<and> py_str ''XML''
         \<in> set (tokenize_pascal_case ascii_db (py_str ''my'' @ py_str ''XML'' @ 72 # 116 # py_str ''tp''))
   \<and> (2::nat) \<le> length (py_str ''ABCD'') \<and> list_all is_AZ (py_str ''ABCD'')
   \<and> \<not> is_AZ (hd (py_str ''!'')) \<and> \<not> is_az (hd (py_str ''!''))
   \<and> \<not> is_AZ (last (py_str ''35''))
   \<and> py_str ''ABCD''
         \<in> set (tokenize_pascal_case ascii_db (py_str ''35'' @ py_str ''ABCD'' @ py_str ''!''))
   \<and> format_pascal_words ascii_db (py_str ''UIUXKit'') = Some (py_str ''UIUX Kit'')"
proof -
  have h1: "py_str ''XML'' \<noteq> [] \<and> list_all is_AZ (py_str ''XML'') \<and> is_AZ 72 \<and> is_az 116
      \<and> (py_str ''my'' = [] \<or> \<not> is_AZ (last (py_str ''my'')))"
    by (simp add: py_str_def is_AZ_def is_az_def)
  have h2: "(2::nat) \<le> length (py_str ''ABCD'') \<and> list_all is_AZ (py_str ''ABCD'')
      \<and> (py_str ''!'' = [] \<or> (\<not> is_AZ (hd (py_str ''!'')) \<and> \<not> is_az (hd (py_str ''!''))))
      \<and> (py_str ''35'' = [] \<or> \<not> is_AZ (last (py_str ''35'')))"
    by (simp add: py_str_def is_AZ_def is_az_def)
  have e: "py_str ''my'' @ py_str ''XML'' @ 72 # 116 # py_str ''tp'' = py_str ''myXMLHttp''"
    by (simp add: py_str_def)
  have n: "\<not> is_AZ (last (py_str ''my''))" "\<not> is_AZ (hd (py_str ''!''))"
    "\<not> is_az (hd (py_str ''!''))" "\<not> is_AZ (last (py_str ''35''))"
    by (simp_all add: py_str_def is_AZ_def is_az_def)
  note c = C2_acronym_runs [of ascii_db]
  from c h1 have a: "match_at ascii_db (py_str ''my'' @ py_str ''XML'' @ 72 # 116 # py_str ''tp'')
         (length (py_str ''my'')) = Some (length (py_str ''XML''))
      \<and> py_str ''XML''
         \<in> set (tokenize_pascal_case ascii_db (py_str ''my'' @ py_str ''XML'' @ 72 # 116 # py_str ''tp''))"
    by blast
  from c h2 have b: "py_str ''ABCD''
         \<in> set (tokenize_pascal_case ascii_db (py_str ''35'' @ py_str ''ABCD'' @ py_str ''!''))"
    by blast
  from c have x: "format_pascal_words ascii_db (py_str ''UIUXKit'') = Some (py_str ''UIUX Kit'')"
    by blast
  show ?thesis using h1 h2 e n a b x by blast
qed

section \<open>The merging pass\<close>

lemma purely_lowercase_islower:
  assumes "lower_not_upper U" "purely_lowercase_letters U t"
  shows "py_islower U t"
proof -
  have l: "list_all (ch_islower U) t" "t \<noteq> []"
    using assms(2) by (simp_all add: purely_lowercase_letters_def)
  have n: "\<not> ch_isupper U c \<and> \<not> ch_istitle U c" if "ch_islower U c" for c
    using that assms(1)
    by (auto simp: ch_islower_def ch_isupper_def ch_istitle_def lower_not_upper_def
        is_az_def is_AZ_def split: if_splits)
  have a: "list_all (\<lambda>c. \<not> ch_isupper U c \<and> \<not> ch_istitle U c) t"
    using l(1) n by (simp add: list_all_iff)
  have e: "list_ex (ch_islower U) t"
    using l by (cases t) (simp_all add: list_ex_iff)
  show ?thesis
  proof (cases t)
    case Nil
    then show ?thesis using l(2) by simp
  next
    case (Cons c cs)
    show ?thesis
    proof (cases cs)
      case Nil
      then show ?thesis using l(1) Cons by (simp add: py_islower_def)
    next
      case (Cons d ds)
      then show ?thesis using a e \<open>t = c # cs\<close> by (simp add: py_islower_def)
    qed
  qed
qed

lemma purely_digits_isdigit: "purely_digits U t = py_isdigit U t"
  by (simp add: purely_digits_def py_isdigit_def)

lemma merge_scan_concat: "concat (map fst (merge_scan U toks)) = concat toks"
  by (induction U toks rule: merge_scan.induct) auto

lemma formatted_unit_merged: "formatted_unit U (t, True) = t"
  by (simp add: formatted_unit_def)

lemma merge_examples:
  "format_pascal_words U (py_str ''35mm'') = Some (py_str ''35mm'')"
  "format_pascal_words U (py_str ''35mm50px'') = Some (py_str ''35mm 50px'')"
  by code_simp+

text \<open>
  Claim C4, as amended.  The claim as written fails in its "otherwise": the source
  tests the following token with \<open>str.islower()\<close>, which holds for a token with a
  lowercase letter and no uppercase or titlecase letter, whatever else it contains.
  In \<open>"35a.b"\<close> the tokens are \<open>"35"\<close>, \<open>"a."\<close> and \<open>"b"\<close>; \<open>"a."\<close> is not purely
  lowercase letters, yet the pass merges \<open>"35"\<close> and \<open>"a."\<close>, and the result is
  \<open>"35a. b"\<close> (the counterexample below; \<open>merge_as_specified\<close> is the pass as the claim
  words it).  What holds: the loop is one pass from left to right over the tokens of
  the segment, \<open>merge_scan\<close>: when the current token is purely digits
  (\<open>str.isdigit()\<close>) and the token after it is lowercase in the sense of
  \<open>str.islower()\<close>, the two texts are concatenated into one unit flagged as merged,
  and the pass goes on after the pair, so that a merged pair takes part in no other
  merge; otherwise the current token alone is passed on, unflagged.  Nothing is lost or
  reordered.  A flagged unit is never re-cased: a segment that starts with a lowercase
  letter keeps every unit, and in the other segments \<open>_format_token\<close> is applied to
  the unflagged units only.  A following token of lowercase letters only is lowercase
  in that sense (when no lowercase letter of the database is also uppercase or
  titlecase), so the pairs the claim names are merged.  In particular
  \<open>format_pascal_words("35mm") = "35mm"\<close> and
  \<open>format_pascal_words("35mm50px") = "35mm 50px"\<close>.
\<close>

theorem C4_merge_pass:
  "merge_loop U toks 0 [] = Some (merge_scan U toks)
   \<and> merge_scan U [] = []
   \<and> merge_scan U [t] = [(t, False)]
   \<and> merge_scan U (t # n # rest) =
       (if py_isdigit U t \<and> py_islower U n then (t @ n, True) # merge_scan U rest
        else (t, False) # merge_scan U (n # rest))
   \<and> concat (map fst (merge_scan U toks)) = concat toks
   \<and> format_segment U seg =
       Some (if seg \<noteq> [] \<and> ch_islower U (hd seg)
             then map fst (merge_scan U (tokenize_pascal_case U seg))
             else map (formatted_unit U) (merge_scan U (tokenize_pascal_case U seg)))
   \<and> formatted_unit U (t, True) = t
   \<and> (lower_not_upper U \<and> purely_digits U t \<and> purely_lowercase_letters U n \<longrightarrow>
        merge_scan U (t # n # rest) = (t @ n, True) # merge_scan U rest)
   \<and> format_pascal_words U (py_str ''35mm'') = Some (py_str ''35mm'')
   \<and> format_pascal_words U (py_str ''35mm50px'') = Some (py_str ''35mm 50px'')"
proof -
  have 1: "merge_loop U toks 0 [] = Some (merge_scan U toks)"
    using merge_loop_eq [of 0 toks U "[]"] by simp
  have 2: "format_segment U seg =
       Some (if seg \<noteq> [] \<and> ch_islower U (hd seg)
             then map fst (merge_scan U (tokenize_pascal_case U seg))
             else map (formatted_unit U) (merge_scan U (tokenize_pascal_case U seg)))"
    by (simp add: format_segment_eq segment_formatted_def)
  have 3: "merge_scan U (t # n # rest) = (t @ n, True) # merge_scan U rest"
    if "lower_not_upper U" "purely_digits U t" "purely_lowercase_letters U n"
    using that purely_lowercase_islower [of U n] by (simp add: purely_digits_isdigit)
  show ?thesis
    using 1 2 3 merge_scan_concat [of U toks] formatted_unit_merged [of U t] merge_examples [of U]
    by simp
qed

theorem C4_merge_pass_witness:
  "lower_not_upper ascii_db \<and> purely_digits ascii_db (py_str ''35'')
   \<and> purely_lowercase_letters ascii_db (py_str ''mm'')
   \<and> merge_scan ascii_db (py_str ''35'' # py_str ''mm'' # [py_str ''50'', py_str ''px''])
       = (py_str ''35'' @ py_str ''mm'', True) # merge_scan ascii_db [py_str ''50'', py_str ''px'']
   \<and> merge_loop ascii_db [py_str ''35'', py_str ''mm'', py_str ''50'', py_str ''px''] 0 []
       = Some (merge_scan ascii_db [py_str ''35'', py_str ''mm'', py_str ''50'', py_str ''px''])
   \<and> format_pascal_words ascii_db (py_str ''35mm50px'') = Some (py_str ''35mm 50px'')"
proof -
  have l: "lower_not_upper ascii_db"
    by (simp add: lower_not_upper_def ascii_db_def)
  have d: "purely_digits ascii_db (py_str ''35'')"
    by (simp add: purely_digits_def py_str_def ch_isdigit_def is_09_def)
  have m: "purely_lowercase_letters ascii_db (py_str ''mm'')"
    by (simp add: purely_lowercase_letters_def py_str_def ch_islower_def is_az_def)
  note c = C4_merge_pass [of ascii_db "[py_str ''35'', py_str ''mm'', py_str ''50'', py_str ''px'']"
      "py_str ''35''" "py_str ''mm''" "[py_str ''50'', py_str ''px'']"]
  show ?thesis using c l d m by blast
qed

theorem C4_counterexample:
  "tokenize_pascal_case ascii_db (py_str ''35a.b'') = [py_str ''35'', py_str ''a.'', py_str ''b'']
   \<and> purely_digits ascii_db (py_str ''35'')
   \<and> \<not> purely_lowercase_letters ascii_db (py_str ''a.'')
   \<and> merge_loop ascii_db [py_str ''35'', py_str ''a.'', py_str ''b''] 0 []
       = Some [(py_str ''35a.'', True), (py_str ''b'', False)]
   \<and> merge_as_specified ascii_db [py_str ''35'', py_str ''a.'', py_str ''b'']
       = [(py_str ''35'', False), (py_str ''a.'', False), (py_str ''b'', False)]
   \<and> format_pascal_words ascii_db (py_str ''35a.b'') = Some (py_str ''35a. b'')"
  by code_simp

section \<open>Spaces in the result\<close>

lemma has_double_space_append:
  "has_double_space (a @ b) =
     (has_double_space a \<or> has_double_space b \<or> (a \<noteq> [] \<and> b \<noteq> [] \<and> last a = 32 \<and> hd b = 32))"
proof (induction a)
  case Nil
  show ?case by simp
next
  case (Cons x xs)
  show ?case
  proof (cases xs)
    case Nil
    then show ?thesis by (cases b) auto
  next
    case (Cons y ys)
    then show ?thesis using Cons.IH by auto
  qed
qed

lemma no_space_no_double: "32 \<notin> set t \<Longrightarrow> \<not> has_double_space t"
  by (induction t rule: has_double_space.induct) auto

lemma strip_parts: "\<exists>a b. s = a @ py_strip U s @ b"
proof -
  let ?P = "ch_isspace U"
  let ?y = "dropWhile ?P s"
  have "rev ?y = takeWhile ?P (rev ?y) @ dropWhile ?P (rev ?y)" by simp
  then have "?y = rev (dropWhile ?P (rev ?y)) @ rev (takeWhile ?P (rev ?y))"
    by (metis rev_append rev_rev_ident)
  then have "s = takeWhile ?P s @ py_strip U s @ rev (takeWhile ?P (rev ?y))"
    unfolding py_strip_def by (metis takeWhile_dropWhile_id)
  then show ?thesis by blast
qed

lemma strip_ends:
  assumes "py_strip U s \<noteq> []"
  shows "\<not> ch_isspace U (hd (py_strip U s)) \<and> \<not> ch_isspace U (last (py_strip U s))"
proof -
  let ?P = "ch_isspace U"
  let ?y = "dropWhile ?P s"
  let ?z = "dropWhile ?P (rev ?y)"
  have z: "?z \<noteq> []" using assms by (simp add: py_strip_def)
  have l: "last (py_strip U s) = hd ?z" using z by (simp add: py_strip_def last_rev)
  have "\<not> ?P (hd ?z)" using z by (rule hd_dropWhile)
  then have 1: "\<not> ?P (last (py_strip U s))" using l by simp
  have y: "?y \<noteq> []" using z by (metis dropWhile.simps(1) rev_is_Nil_conv)
  have "?y = rev ?z @ rev (takeWhile ?P (rev ?y))"
    by (metis rev_append rev_rev_ident takeWhile_dropWhile_id)
  then have "hd ?y = hd (rev ?z)" using z by (metis hd_append2 rev_is_Nil_conv)
  moreover have "\<not> ?P (hd ?y)" using y by (rule hd_dropWhile)
  ultimately have 2: "\<not> ?P (hd (py_strip U s))" by (simp add: py_strip_def)
  show ?thesis using 1 2 by simp
qed

lemma space_isspace: "ch_isspace U 32"
  by (simp add: ch_isspace_def)

lemma strip_no_double: "\<not> has_double_space s \<Longrightarrow> \<not> has_double_space (py_strip U s)"
proof -
  assume n: "\<not> has_double_space s"
  obtain a b where "s = a @ py_strip U s @ b" using strip_parts by blast
  then have "has_double_space (py_strip U s) \<Longrightarrow> has_double_space s"
    by (metis has_double_space_append)
  then show ?thesis using n by blast
qed

lemma trailing_no_letter:
  assumes "t \<in> TRAILING_SPACE \<or> t = py_str ''%''"
  shows "\<not> starts_with_letter U t"
  using assms
  by (auto simp: TRAILING_SPACE_def py_str_def starts_with_letter_def ch_isalpha_def
      is_AZ_def is_az_def)

lemma space_after_only:
  assumes "needs_space_after U (Some n) t = Some True"
  shows "t \<in> TRAILING_SPACE \<or> t = py_str ''%''"
proof (rule ccontr)
  assume c: "\<not> (t \<in> TRAILING_SPACE \<or> t = py_str ''%'')"
  then have "needs_space_after U (Some n) t = Some False"
    by (simp add: needs_space_after_def)
  then show False using assms by simp
qed

lemma trailing_nonempty: "t \<in> TRAILING_SPACE \<Longrightarrow> t \<noteq> []"
  by (auto simp: TRAILING_SPACE_def py_str_def)

lemma no_space_before_after_trailing:
  assumes "t \<in> TRAILING_SPACE \<or> t = py_str ''%''"
  shows "needs_space_before U (Some t) n = Some False"
proof -
  have l: "is_alphanumeric_token U t = Some False"
    using trailing_no_letter [OF assms, of U] by (simp add: is_alphanumeric_token_eq)
  show ?thesis
  proof (cases "t \<in> TRAILING_SPACE")
    case True
    then show ?thesis using trailing_nonempty [OF True] by (simp add: needs_space_before_def l)
  next
    case False
    then have p: "t = py_str ''%''" using assms by simp
    have l': "is_alphanumeric_token U (py_str ''%'') = Some False" using l p by simp
    show ?thesis
      unfolding p needs_space_before_def
      by (simp add: l' money_not_punct money_not_punct')
  qed
qed

lemma spaces_never_meet:
  "needs_space_after U (Some n) t = Some True \<Longrightarrow> needs_space_before U (Some t) n = Some False"
  using space_after_only [of U n t] no_space_before_after_trailing [of t U n] by blast

lemma spaced_shape:
  "\<exists>b a. spaced U ts i = (if b then [32] else []) @ ts ! i @ (if a then [32] else [])
     \<and> (b \<longrightarrow> needs_space_before U (prev_of ts i) (ts ! i) = Some True)
     \<and> (a \<longrightarrow> needs_space_after U (next_of ts i) (ts ! i) = Some True)"
proof -
  obtain b where b: "needs_space_before U (prev_of ts i) (ts ! i) = Some b"
    using needs_space_before_total by blast
  obtain a where a: "needs_space_after U (next_of ts i) (ts ! i) = Some a"
    using needs_space_after_total by blast
  have "spaced U ts i = (if b then [32] else []) @ ts ! i @ (if a then [32] else [])"
    by (simp add: spaced_def a b)
  then show ?thesis using a b by (intro exI [of _ b] exI [of _ a]) simp
qed

lemma joined_no_double_space:
  assumes "\<forall>t \<in> set ts. t \<noteq> [] \<and> 32 \<notin> set t" "k \<le> length ts"
  shows "\<not> has_double_space (concat (map (spaced U ts) [0..<k]))
     \<and> (0 < k \<and> concat (map (spaced U ts) [0..<k]) \<noteq> []
          \<and> last (concat (map (spaced U ts) [0..<k])) = 32 \<longrightarrow>
        needs_space_after U (next_of ts (k - 1)) (ts ! (k - 1)) = Some True)"
  using assms(2)
proof (induction k)
  case 0
  show ?case by simp
next
  case (Suc k)
  let ?j = "concat (map (spaced U ts) [0..<k])"
  have k: "k < length ts" using Suc.prems by simp
  have t: "ts ! k \<noteq> []" "32 \<notin> set (ts ! k)" using assms(1) k by auto
  obtain b a where sh: "spaced U ts k = (if b then [32] else []) @ ts ! k @ (if a then [32] else [])"
    and bb: "b \<longrightarrow> needs_space_before U (prev_of ts k) (ts ! k) = Some True"
    and aa: "a \<longrightarrow> needs_space_after U (next_of ts k) (ts ! k) = Some True"
    using spaced_shape [of U ts k] by blast
  have ih: "\<not> has_double_space ?j"
    "0 < k \<and> ?j \<noteq> [] \<and> last ?j = 32 \<longrightarrow>
        needs_space_after U (next_of ts (k - 1)) (ts ! (k - 1)) = Some True"
    using Suc.IH k by simp_all
  have j0: "k = 0 \<Longrightarrow> ?j = []" by simp
  have ends: "last (ts ! k) \<noteq> 32" "hd (ts ! k) \<noteq> 32"
    using t by (metis last_in_set, metis hd_in_set)
  have piece: "\<not> has_double_space (spaced U ts k)"
    using t(1) ends no_space_no_double [OF t(2)]
    by (simp add: sh has_double_space_append)
  have piece_ne: "spaced U ts k \<noteq> []" using t(1) by (simp add: sh)
  have hd_piece: "hd (spaced U ts k) = 32 \<Longrightarrow> b"
    using t(1) ends by (cases b) (simp_all add: sh)
  have last_piece: "last (spaced U ts k) = 32 \<Longrightarrow> a"
    using t(1) ends by (cases a) (simp_all add: sh)
  have meet: "\<not> (?j \<noteq> [] \<and> last ?j = 32 \<and> hd (spaced U ts k) = 32)"
  proof
    assume m: "?j \<noteq> [] \<and> last ?j = 32 \<and> hd (spaced U ts k) = 32"
    then have k0: "0 < k" using j0 by auto
    then have af: "needs_space_after U (next_of ts (k - 1)) (ts ! (k - 1)) = Some True"
      using ih(2) m by simp
    have nx: "next_of ts (k - 1) = Some (ts ! k)" using k k0 by (simp add: next_of_def)
    have pv: "prev_of ts k = Some (ts ! (k - 1))" using k0 by (simp add: prev_of_def)
    have "needs_space_before U (Some (ts ! (k - 1))) (ts ! k) = Some False"
      using af unfolding nx by (rule spaces_never_meet)
    moreover have "needs_space_before U (prev_of ts k) (ts ! k) = Some True"
      using hd_piece m bb by simp
    ultimately show False unfolding pv by simp
  qed
  have c: "concat (map (spaced U ts) [0..<Suc k]) = ?j @ spaced U ts k" by simp
  have 1: "\<not> has_double_space (concat (map (spaced U ts) [0..<Suc k]))"
    unfolding c has_double_space_append using ih(1) piece meet by blast
  have 2: "last (concat (map (spaced U ts) [0..<Suc k])) = 32 \<Longrightarrow>
      needs_space_after U (next_of ts k) (ts ! k) = Some True"
    unfolding c using piece_ne last_piece aa by simp
  show ?case using 1 2 by simp
qed

lemma split_acc_set: "seg \<in> set (split_acc c cur s) \<Longrightarrow> set seg \<subseteq> set cur \<union> set s"
proof (induction s arbitrary: cur)
  case Nil
  then show ?case by simp
next
  case (Cons x xs)
  show ?case
  proof (cases "x = c")
    case True
    then have "seg = cur \<or> seg \<in> set (split_acc c [] xs)" using Cons.prems by simp
    then show ?thesis using Cons.IH [of "[]"] by auto
  next
    case False
    then have "seg \<in> set (split_acc c (cur @ [x]) xs)" using Cons.prems by simp
    then show ?thesis using Cons.IH [of "cur @ [x]"] by auto
  qed
qed

lemma py_split_set: "seg \<in> set (py_split c v) \<Longrightarrow> set seg \<subseteq> set v"
  using split_acc_set [of seg c "[]" v] by (simp add: py_split_def)

lemma token_set: "t \<in> set (tokenize_pascal_case U s) \<Longrightarrow> set t \<subseteq> set s \<and> t \<noteq> []"
proof -
  assume t: "t \<in> set (tokenize_pascal_case U s)"
  have "set (concat (tokenize_pascal_case U s)) = set s" using tokenize_concat [of U s] by simp
  then have "set t \<subseteq> set s" using t by auto
  moreover have "t \<noteq> []" using tokenize_concat [of U s] t by auto
  ultimately show ?thesis by simp
qed

lemma merge_scan_set:
  "m \<in> set (merge_scan U toks) \<Longrightarrow> set (fst m) \<subseteq> \<Union> (set ` set toks)"
proof -
  assume m: "m \<in> set (merge_scan U toks)"
  have "set (concat (map fst (merge_scan U toks))) = set (concat toks)"
    by (simp only: merge_scan_concat)
  then have "\<Union> (set ` fst ` set (merge_scan U toks)) = \<Union> (set ` set toks)" by simp
  then show ?thesis using m by blast
qed

lemma py_upper1_clean:
  assumes "case_maps_add_no_space U" "c \<noteq> 32"
  shows "32 \<notin> set (py_upper1 U c)"
  using assms by (auto simp: py_upper1_def case_maps_add_no_space_def is_az_def)

lemma py_lower_clean:
  assumes "case_maps_add_no_space U" "32 \<notin> set s"
  shows "32 \<notin> set (py_lower U s)"
proof (cases "list_all (\<lambda>c. c < 128) s")
  case True
  have e: "py_lower U s = map (\<lambda>c. if is_AZ c then c + 32 else c) s"
    using True by (simp add: py_lower_def)
  show ?thesis unfolding e
  proof
    assume "32 \<in> set (map (\<lambda>c. if is_AZ c then c + 32 else c) s)"
    then obtain c where c: "c \<in> set s" "(if is_AZ c then c + 32 else c) = 32"
      by (auto simp: image_iff)
    show False
    proof (cases "is_AZ c")
      case True
      then show False using c(2) by (simp add: is_AZ_def)
    next
      case False
      then show False using c assms(2) by simp
    qed
  qed
next
  case False
  then show ?thesis using assms by (simp add: py_lower_def case_maps_add_no_space_def)
qed

lemma format_token_clean:
  assumes "case_maps_add_no_space U" "32 \<notin> set t"
  shows "32 \<notin> set (the (format_token U t))"
proof (cases "t = []")
  case True
  then show ?thesis by (simp add: format_token_def)
next
  case False
  then have h: "hd t \<noteq> 32" using assms(2) by (metis hd_in_set)
  have d: "32 \<notin> set (drop 1 t)" using assms(2) by (metis in_set_dropD)
  have "32 \<notin> set (title_case U t)"
    unfolding title_case_def
    using py_upper1_clean [OF assms(1) h] py_lower_clean [OF assms(1) d] by simp
  then show ?thesis using format_token_cases [of U t] assms(2) by auto
qed

lemma segment_formatted_clean:
  assumes "case_maps_add_no_space U" "32 \<notin> set seg" "f \<in> set (segment_formatted U seg)"
  shows "32 \<notin> set f"
proof -
  have u: "32 \<notin> set (fst m)" if "m \<in> set (merge_scan U (tokenize_pascal_case U seg))" for m
  proof -
    have "set (fst m) \<subseteq> \<Union> (set ` set (tokenize_pascal_case U seg))"
      using that by (rule merge_scan_set)
    moreover have "\<Union> (set ` set (tokenize_pascal_case U seg)) \<subseteq> set seg"
      using token_set [of _ U seg] by auto
    ultimately show ?thesis using assms(2) by auto
  qed
  obtain m where m: "m \<in> set (merge_scan U (tokenize_pascal_case U seg))"
    "f = fst m \<or> f = formatted_unit U m"
    using assms(3) by (auto simp: segment_formatted_def split: if_splits)
  have "32 \<notin> set (formatted_unit U m)"
    using u [OF m(1)] format_token_clean [OF assms(1), of "fst m"]
    by (simp add: formatted_unit_def)
  then show ?thesis using m(2) u [OF m(1)] by auto
qed

lemma formatted_tokens_clean:
  assumes "case_maps_add_no_space U" "32 \<notin> set v" "f \<in> set (formatted_tokens U v)"
  shows "32 \<notin> set f"
proof -
  obtain seg where seg: "seg \<in> set (py_split 95 v)" "f \<in> set (segment_formatted U seg)"
    using assms(3) by (auto simp: formatted_tokens_def)
  have "32 \<notin> set seg" using py_split_set [OF seg(1)] assms(2) by auto
  then show ?thesis using segment_formatted_clean [OF assms(1) _ seg(2)] by simp
qed

lemma format_pascal_words_spaces:
  "\<exists>out. format_pascal_words U v = Some out
     \<and> (out \<noteq> [] \<longrightarrow> hd out \<noteq> 32 \<and> last out \<noteq> 32)
     \<and> (32 \<notin> set v \<and> case_maps_add_no_space U \<longrightarrow> \<not> has_double_space out)"
proof -
  let ?ts = "filter (\<lambda>t. t \<noteq> []) (formatted_tokens U v)"
  let ?j = "concat (spaced_tokens U (formatted_tokens U v))"
  have out: "format_pascal_words U v = Some (py_strip U ?j)" by (rule format_pascal_words_eq)
  have ends: "py_strip U ?j \<noteq> [] \<longrightarrow> hd (py_strip U ?j) \<noteq> 32 \<and> last (py_strip U ?j) \<noteq> 32"
    using strip_ends [of U ?j] space_isspace [of U] by metis
  have nd: "\<not> has_double_space (py_strip U ?j)" if h: "32 \<notin> set v" "case_maps_add_no_space U"
  proof -
    have "\<forall>t \<in> set ?ts. t \<noteq> [] \<and> 32 \<notin> set t"
      using formatted_tokens_clean [OF h(2,1)] by auto
    then have "\<not> has_double_space (concat (map (spaced U ?ts) [0..<length ?ts]))"
      using joined_no_double_space [of ?ts "length ?ts" U] by simp
    then have "\<not> has_double_space ?j" by (simp add: spaced_tokens_def)
    then show ?thesis by (rule strip_no_double)
  qed
  show ?thesis using out ends nd by blast
qed

lemma split_at_hyphen_set:
  "split_at_hyphen b = [l, r] \<Longrightarrow> set l \<subseteq> set b \<and> set r \<subseteq> set b"
proof -
  assume a: "split_at_hyphen b = [l, r]"
  show ?thesis
  proof (cases "45 \<in> set b")
    case False
    then show ?thesis using a by (auto simp: split_at_hyphen_def)
  next
    case True
    then have l: "l = takeWhile (\<lambda>c. c \<noteq> 45) b" and r: "r = tl (dropWhile (\<lambda>c. c \<noteq> 45) b)"
      using a by (simp_all add: split_at_hyphen_def py_split1_def)
    have "set l \<subseteq> set b" unfolding l by (metis set_takeWhileD subsetI)
    moreover have "set r \<subseteq> set b"
      unfolding r by (metis (no_types) list.set_sel(2) set_dropWhileD subsetI tl_Nil)
    ultimately show ?thesis by simp
  qed
qed

lemma split_family_subfamily_spaces:
  "\<exists>fam sub. split_family_subfamily U v e = Some (fam, sub)
     \<and> (fam \<noteq> [] \<longrightarrow> hd fam \<noteq> 32 \<and> last fam \<noteq> 32)
     \<and> (sub \<noteq> [] \<longrightarrow> hd sub \<noteq> 32 \<and> last sub \<noteq> 32)
     \<and> (32 \<notin> set v \<and> case_maps_add_no_space U \<longrightarrow>
          \<not> has_double_space fam \<and> \<not> has_double_space sub)"
proof -
  let ?b = "normalize_basename v e"
  obtain l r where lr: "split_at_hyphen ?b = [l, r]"
    using split_at_hyphen_two by blast
  have sets: "set l \<subseteq> set v \<union> {95, 46}" "set r \<subseteq> set v \<union> {95, 46}"
    using split_at_hyphen_set [OF lr] normalize_basename_set [of v e] by auto
  have cl: "32 \<notin> set v \<Longrightarrow> 32 \<notin> set l" and cr: "32 \<notin> set v \<Longrightarrow> 32 \<notin> set r"
    using sets by auto
  obtain fam where fam: "format_pascal_words U l = Some fam"
    "fam \<noteq> [] \<longrightarrow> hd fam \<noteq> 32 \<and> last fam \<noteq> 32"
    "32 \<notin> set l \<and> case_maps_add_no_space U \<longrightarrow> \<not> has_double_space fam"
    using format_pascal_words_spaces [of U l] by blast
  obtain sub where sub: "(if r \<noteq> [] then format_pascal_words U r else Some []) = Some sub"
    "sub \<noteq> [] \<longrightarrow> hd sub \<noteq> 32 \<and> last sub \<noteq> 32"
    "32 \<notin> set r \<and> case_maps_add_no_space U \<longrightarrow> \<not> has_double_space sub"
  proof (cases "r = []")
    case True
    show ?thesis by (rule that [of "[]"]) (simp_all add: True)
  next
    case False
    obtain s where "format_pascal_words U r = Some s"
      "s \<noteq> [] \<longrightarrow> hd s \<noteq> 32 \<and> last s \<noteq> 32"
      "32 \<notin> set r \<and> case_maps_add_no_space U \<longrightarrow> \<not> has_double_space s"
      using format_pascal_words_spaces [of U r] by blast
    then show ?thesis using False by (intro that [of s]) simp_all
  qed
  have "split_family_subfamily U v e = Some (fam, sub)"
    using fam(1) sub(1) by (simp add: split_family_subfamily_def lr unpack2_def)
  then show ?thesis using fam(2,3) sub(2,3) cl cr by blast
qed

lemma spacing_shape:
  "\<exists>sp. apply_spacing_rules U ts = Some sp
     \<and> length sp = length (filter (\<lambda>t. t \<noteq> []) ts)
     \<and> (\<forall>i < length sp. \<exists>b a. sp ! i =
           (if b then py_str '' '' else []) @ filter (\<lambda>t. t \<noteq> []) ts ! i
           @ (if a then py_str '' '' else []))"
proof -
  let ?ts = "filter (\<lambda>t. t \<noteq> []) ts"
  have "\<exists>b a. spaced U ?ts i =
      (if b then py_str '' '' else []) @ ?ts ! i @ (if a then py_str '' '' else [])" for i
    using spaced_shape [of U ?ts i] unfolding py_str_space by blast
  then show ?thesis by (simp add: apply_spacing_rules_eq)
qed

lemma joined_then_stripped:
  "\<exists>toks sp. apply_spacing_rules U toks = Some sp
     \<and> format_pascal_words U v = Some (py_strip U (concat sp))"
  using format_pascal_words_eq [of U v] apply_spacing_rules_eq [of U "formatted_tokens U v"]
  unfolding spaced_tokens_def by blast

text \<open>
  Claim C10, as amended.  The claim as written fails for an input that holds a space:
  the space stays inside a token (no pattern matches it), and an inserted space can
  stand next to it.  \<open>format_pascal_words("Open Sans")\<close> has the tokens \<open>"O"\<close>,
  \<open>"pen "\<close> and \<open>"Sans"\<close> and returns \<open>"O pen  Sans"\<close>, with two consecutive spaces
  (the counterexample below).  What holds, for every input and character database: the
  result of \<open>format_pascal_words\<close>, and each component of \<open>split_family_subfamily\<close>,
  never begins or ends with a space; it has no two consecutive spaces when the input
  holds no space (and the case mappings of the database bring none in).  The reasons
  are those the claim gives: every entry of the spaced list is a token with at most
  one space before and one after it, the space after a token and the space before the
  next token never both occur, and the joined list is stripped.
\<close>

theorem C10_spaces:
  "(\<exists>out. format_pascal_words U v = Some out
      \<and> (out \<noteq> [] \<longrightarrow> hd out \<noteq> 32 \<and> last out \<noteq> 32)
      \<and> (32 \<notin> set v \<and> case_maps_add_no_space U \<longrightarrow> \<not> has_double_space out))
   \<and> (\<exists>fam sub. split_family_subfamily U v e = Some (fam, sub)
      \<and> (fam \<noteq> [] \<longrightarrow> hd fam \<noteq> 32 \<and> last fam \<noteq> 32)
      \<and> (sub \<noteq> [] \<longrightarrow> hd sub \<noteq> 32 \<and> last sub \<noteq> 32)
      \<and> (32 \<notin> set v \<and> case_maps_add_no_space U \<longrightarrow>
           \<not> has_double_space fam \<and> \<not> has_double_space sub))
   \<and> (\<exists>sp. apply_spacing_rules U ts = Some sp
      \<and> length sp = length (filter (\<lambda>t. t \<noteq> []) ts)
      \<and> (\<forall>i < length sp. \<exists>b a. sp ! i =
            (if b then py_str '' '' else []) @ filter (\<lambda>t. t \<noteq> []) ts ! i
            @ (if a then py_str '' '' else [])))
   \<and> (needs_space_after U (Some n) t = Some True \<longrightarrow>
        needs_space_before U (Some t) n = Some False)
   \<and> (\<exists>toks sp. apply_spacing_rules U toks = Some sp
        \<and> format_pascal_words U v = Some (py_strip U (concat sp)))"
  using format_pascal_words_spaces [of U v] split_family_subfamily_spaces [of U v e]
    spacing_shape [of U ts] spaces_never_meet [of U n t] joined_then_stripped [of U v]
  by (intro conjI impI) assumption+

theorem C10_spaces_witness:
  "32 \<notin> set (py_str ''Font!Name-Bold'') \<and> case_maps_add_no_space ascii_db
   \<and> needs_space_after ascii_db (Some (py_str ''Name'')) (py_str ''!'') = Some True
   \<and> needs_space_before ascii_db (Some (py_str ''!'')) (py_str ''Name'') = Some False
   \<and> (\<exists>out. format_pascal_words ascii_db (py_str ''Font!Name-Bold'') = Some out
         \<and> \<not> has_double_space out)
   \<and> (\<exists>fam sub. split_family_subfamily ascii_db (py_str ''Font!Name-Bold'') True = Some (fam, sub)
         \<and> \<not> has_double_space fam \<and> \<not> has_double_space sub)"
proof -
  have v: "32 \<notin> set (py_str ''Font!Name-Bold'')" by (simp add: py_str_def)
  have c: "case_maps_add_no_space ascii_db"
    by (simp add: case_maps_add_no_space_def ascii_db_def)
  have a: "needs_space_after ascii_db (Some (py_str ''Name'')) (py_str ''!'') = Some True"
    by code_simp
  note w = C10_spaces [of ascii_db "py_str ''Font!Name-Bold''" True "[]" "py_str ''Name''"
      "py_str ''!''"]
  from w a have b: "needs_space_before ascii_db (Some (py_str ''!'')) (py_str ''Name'') = Some False"
    by blast
  from w v c have o: "\<exists>out. format_pascal_words ascii_db (py_str ''Font!Name-Bold'') = Some out
         \<and> \<not> has_double_space out"
    by blast
  from w v c have f: "\<exists>fam sub. split_family_subfamily ascii_db (py_str ''Font!Name-Bold'') True
         = Some (fam, sub) \<and> \<not> has_double_space fam \<and> \<not> has_double_space sub"
    by blast
  show ?thesis using v c a b o f by blast
qed

theorem C10_counterexample:
  "format_pascal_words ascii_db (py_str ''Open Sans'') = Some (py_str ''O pen  Sans'')
   \<and> has_double_space (py_str ''O pen  Sans'')
   \<and> tokenize_pascal_case ascii_db (py_str ''Open Sans'')
       = [py_str ''O'', py_str ''pen '', py_str ''Sans'']
   \<and> split_family_subfamily ascii_db (py_str ''Open Sans-Bold.ttf'') True
       = Some (py_str ''O pen  Sans'', py_str ''Bold'')"
  by code_simp

section \<open>Segments that start with a lowercase letter\<close>

lemma merge_scan_holds_token:
  "t \<in> set toks \<Longrightarrow> \<exists>m \<in> set (merge_scan U toks). \<exists>a b. fst m = a @ t @ b"
proof (induction U toks rule: merge_scan.induct)
  case (1 U)
  then show ?case by simp
next
  case (2 U x)
  then have "t = x" by simp
  then have "fst (x, False) = [] @ t @ []" by simp
  then show ?case by (metis list.set_intros(1) merge_scan.simps(2))
next
  case (3 U x n rest)
  show ?case
  proof (cases "py_isdigit U x \<and> py_islower U n")
    case True
    then have ms: "merge_scan U (x # n # rest) = (x @ n, True) # merge_scan U rest" by simp
    consider "t = x" | "t = n" | "t \<in> set rest" using 3(3) by auto
    then show ?thesis
    proof cases
      case 1
      then have "fst (x @ n, True) = [] @ t @ n" by simp
      then show ?thesis unfolding ms by (metis list.set_intros(1))
    next
      case 2
      then have "fst (x @ n, True) = x @ t @ []" by simp
      then show ?thesis unfolding ms by (metis list.set_intros(1))
    next
      case 3
      then obtain m a b where "m \<in> set (merge_scan U rest)" "fst m = a @ t @ b"
        using "3.IH"(1) True by blast
      then show ?thesis unfolding ms by (metis list.set_intros(2))
    qed
  next
    case False
    then have ms: "merge_scan U (x # n # rest) = (x, False) # merge_scan U (n # rest)" by auto
    consider "t = x" | "t \<in> set (n # rest)" using 3(3) by auto
    then show ?thesis
    proof cases
      case 1
      then have "fst (x, False) = [] @ t @ []" by simp
      then show ?thesis unfolding ms by (metis list.set_intros(1))
    next
      case 2
      then obtain m a b where "m \<in> set (merge_scan U (n # rest))" "fst m = a @ t @ b"
        using "3.IH"(2) False by blast
      then show ?thesis unfolding ms by (metis list.set_intros(2))
    qed
  qed
qed

lemma in_concat_parts: "x \<in> set xs \<Longrightarrow> \<exists>a b. concat xs = a @ x @ b"
proof -
  assume "x \<in> set xs"
  then obtain ys zs where "xs = ys @ x # zs" by (meson split_list)
  then have "concat xs = concat ys @ x @ concat zs" by simp
  then show ?thesis by blast
qed

lemma dropWhile_keeps:
  assumes "t \<noteq> []" "\<not> P (hd t)"
  shows "dropWhile P (a @ t @ b) = dropWhile P a @ t @ b"
proof -
  have "dropWhile P (t @ b) = t @ b" using assms by (cases t) simp_all
  then show ?thesis by (simp add: dropWhile_append)
qed

lemma strip_keeps:
  assumes "t \<noteq> []" "\<not> ch_isspace U (hd t)" "\<not> ch_isspace U (last t)"
  shows "\<exists>a' b'. py_strip U (a @ t @ b) = a' @ t @ b'"
proof -
  let ?P = "ch_isspace U"
  have 1: "dropWhile ?P (a @ t @ b) = dropWhile ?P a @ t @ b"
    using assms(1,2) by (rule dropWhile_keeps)
  have r: "rev t \<noteq> []" "\<not> ?P (hd (rev t))" using assms(1,3) by (simp_all add: hd_rev)
  have "rev (dropWhile ?P a @ t @ b) = rev b @ rev t @ rev (dropWhile ?P a)" by simp
  then have "dropWhile ?P (rev (dropWhile ?P a @ t @ b))
      = dropWhile ?P (rev b) @ rev t @ rev (dropWhile ?P a)"
    using dropWhile_keeps [of "rev t" ?P "rev b" "rev (dropWhile ?P a)"] r by simp
  then have "py_strip U (a @ t @ b) = dropWhile ?P a @ t @ rev (dropWhile ?P (rev b))"
    unfolding py_strip_def 1 by simp
  then show ?thesis by blast
qed

lemma lower_segment_formatted:
  assumes "seg \<noteq> []" "ch_islower U (hd seg)"
  shows "format_segment U seg = Some (map fst (merge_scan U (tokenize_pascal_case U seg)))"
    and "concat (map fst (merge_scan U (tokenize_pascal_case U seg))) = seg"
  using assms tokenize_concat [of U seg]
  by (simp_all add: format_segment_eq segment_formatted_def merge_scan_concat)

lemma token_in_joined:
  assumes "seg \<in> set (py_split 95 v)" "seg \<noteq> []" "ch_islower U (hd seg)"
    "t \<in> set (tokenize_pascal_case U seg)"
  shows "\<exists>a b. concat (spaced_tokens U (formatted_tokens U v)) = a @ t @ b"
proof -
  let ?ts = "filter (\<lambda>t. t \<noteq> []) (formatted_tokens U v)"
  obtain m x y where m: "m \<in> set (merge_scan U (tokenize_pascal_case U seg))" "fst m = x @ t @ y"
    using merge_scan_holds_token [OF assms(4)] by blast
  have tne: "t \<noteq> []" using token_set [OF assms(4)] by simp
  have "fst m \<in> set (segment_formatted U seg)"
    using m(1) assms(2,3) by (simp add: segment_formatted_def)
  then have "fst m \<in> set (formatted_tokens U v)"
    using assms(1,2) by (auto simp: formatted_tokens_def)
  moreover have "fst m \<noteq> []" using m(2) tne by simp
  ultimately have "fst m \<in> set ?ts" by simp
  then obtain i where i: "i < length ?ts" "?ts ! i = fst m" by (meson in_set_conv_nth)
  obtain p q where sp: "spaced U ?ts i = p @ ?ts ! i @ q"
    using spaced_shape [of U ?ts i] by blast
  have "spaced U ?ts i \<in> set (spaced_tokens U (formatted_tokens U v))"
    using i(1) by (simp add: spaced_tokens_def)
  then obtain c d where "concat (spaced_tokens U (formatted_tokens U v)) = c @ spaced U ?ts i @ d"
    using in_concat_parts by blast
  then have "concat (spaced_tokens U (formatted_tokens U v)) = (c @ p @ x) @ t @ (y @ q @ d)"
    by (simp add: sp i(2) m(2))
  then show ?thesis by blast
qed

text \<open>
  Claim C3, as amended.  The claim as written fails at the edge of the result, which
  is stripped: for the input \<open>"a "\<close> (a letter and a space) the only token is
  \<open>"a "\<close>, the segment starts with a lowercase letter, and the output is \<open>"a"\<close>, in
  which the token does not occur (the counterexample below).  What holds, for every input
  \<open>v\<close> and every segment of \<open>v\<close> whose first character is lowercase: the segment's
  formatted tokens are its merged tokens with no case transformation, and their
  concatenation is the segment itself; every token of the segment occurs, byte for
  byte, in the joined string of which the output is the stripped form; and it occurs
  in the output itself when it neither begins nor ends with white space.
\<close>

theorem C3_lowercase_segment:
  "seg \<in> set (py_split 95 v) \<Longrightarrow> seg \<noteq> [] \<Longrightarrow> ch_islower U (hd seg) \<Longrightarrow>
   t \<in> set (tokenize_pascal_case U seg) \<Longrightarrow>
     format_segment U seg = Some (map fst (merge_scan U (tokenize_pascal_case U seg)))
     \<and> concat (map fst (merge_scan U (tokenize_pascal_case U seg))) = seg
     \<and> (\<exists>joined a b. format_pascal_words U v = Some (py_strip U joined) \<and> joined = a @ t @ b)
     \<and> (\<not> ch_isspace U (hd t) \<and> \<not> ch_isspace U (last t) \<longrightarrow>
          (\<exists>out a b. format_pascal_words U v = Some out \<and> out = a @ t @ b))"
proof -
  assume h: "seg \<in> set (py_split 95 v)" "seg \<noteq> []" "ch_islower U (hd seg)"
    "t \<in> set (tokenize_pascal_case U seg)"
  let ?j = "concat (spaced_tokens U (formatted_tokens U v))"
  have f: "format_pascal_words U v = Some (py_strip U ?j)" by (rule format_pascal_words_eq)
  obtain a b where j: "?j = a @ t @ b" using token_in_joined [OF h] by blast
  have tne: "t \<noteq> []" using token_set [OF h(4)] by simp
  have 3: "\<exists>joined a b. format_pascal_words U v = Some (py_strip U joined) \<and> joined = a @ t @ b"
    using f j by blast
  have 4: "\<exists>out a b. format_pascal_words U v = Some out \<and> out = a @ t @ b"
    if "\<not> ch_isspace U (hd t)" "\<not> ch_isspace U (last t)"
  proof -
    have n: "\<not> ch_isspace U (hd t)" "\<not> ch_isspace U (last t)" using that by simp_all
    obtain a' b' where "py_strip U (a @ t @ b) = a' @ t @ b'"
      using strip_keeps [OF tne n, of a b] by blast
    then show ?thesis using f unfolding j by blast
  qed
  show ?thesis
    using lower_segment_formatted [OF h(2,3)] 3 4 by blast
qed

theorem C3_lowercase_segment_witness:
  "py_str ''oook'' \<in> set (py_split 95 (py_str ''ABC_oook'')) \<and> py_str ''oook'' \<noteq> []
   \<and> ch_islower ascii_db (hd (py_str ''oook''))
   \<and> py_str ''oook'' \<in> set (tokenize_pascal_case ascii_db (py_str ''oook''))
   \<and> \<not> ch_isspace ascii_db (hd (py_str ''oook'')) \<and> \<not> ch_isspace ascii_db (last (py_str ''oook''))
   \<and> concat (map fst (merge_scan ascii_db (tokenize_pascal_case ascii_db (py_str ''oook''))))
       = py_str ''oook''
   \<and> (\<exists>out a b. format_pascal_words ascii_db (py_str ''ABC_oook'') = Some out
         \<and> out = a @ py_str ''oook'' @ b)"
proof -
  have h1: "py_str ''oook'' \<in> set (py_split 95 (py_str ''ABC_oook''))" by code_simp
  have h2: "py_str ''oook'' \<noteq> []" by (simp add: py_str_def)
  have h3: "ch_islower ascii_db (hd (py_str ''oook''))" by code_simp
  have h4: "py_str ''oook'' \<in> set (tokenize_pascal_case ascii_db (py_str ''oook''))" by code_simp
  have h5: "\<not> ch_isspace ascii_db (hd (py_str ''oook''))"
    "\<not> ch_isspace ascii_db (last (py_str ''oook''))"
    by (simp_all add: py_str_def ch_isspace_def)
  from C3_lowercase_segment [OF h1 h2 h3 h4] h5
  have "concat (map fst (merge_scan ascii_db (tokenize_pascal_case ascii_db (py_str ''oook''))))
       = py_str ''oook''
     \<and> (\<exists>out a b. format_pascal_words ascii_db (py_str ''ABC_oook'') = Some out
         \<and> out = a @ py_str ''oook'' @ b)"
    by blast
  then show ?thesis using h1 h2 h3 h4 h5 by blast
qed

theorem C3_counterexample:
  "py_str ''a '' \<in> set (py_split 95 (py_str ''a ''))
   \<and> ch_islower ascii_db (hd (py_str ''a ''))
   \<and> tokenize_pascal_case ascii_db (py_str ''a '') = [py_str ''a '']
   \<and> format_pascal_words ascii_db (py_str ''a '') = Some (py_str ''a'')
   \<and> \<not> py_contains (py_str ''a '') (py_str ''a'')"
  by code_simp

end
